theory Spec2Isabelle
  imports Complex_Main "HOL-Library.Log_Nat"
begin

section \<open>Python errors\<close>

text \<open>
  The exceptions the modelled functions of \<^verbatim>\<open>sweep.py\<close> can raise: \<^verbatim>\<open>range\<close> with a zero step
  raises ValueError, converting a too large int to a float raises OverflowError, indexing a
  list out of range raises IndexError, a missing dictionary key raises KeyError and a failing
  removal or copy of a directory raises OSError.
\<close>

datatype error = ValueError | OverflowError | IndexError | KeyError | OSError

section \<open>Integer ranges\<close>

text \<open>
  Python's \<^verbatim>\<open>range(start, stop, step)\<close>: for a positive step the values \<open>start + k * step\<close>
  below \<open>stop\<close>, for a negative step those above \<open>stop\<close>, and ValueError for step zero.
\<close>

function range_up :: "int \<Rightarrow> int \<Rightarrow> int \<Rightarrow> int list" where
  "range_up v stop step =
     (if 0 < step \<and> v < stop then v # range_up (v + step) stop step else [])"
  by pat_completeness auto
termination
  by (relation "measure (\<lambda>(v, stop, step). nat (stop - v))") auto

function range_down :: "int \<Rightarrow> int \<Rightarrow> int \<Rightarrow> int list" where
  "range_down v stop step =
     (if step < 0 \<and> stop < v then v # range_down (v + step) stop step else [])"
  by pat_completeness auto
termination
  by (relation "measure (\<lambda>(v, stop, step). nat (v - stop))") auto

declare range_up.simps [simp del] range_down.simps [simp del]

definition py_range :: "int \<Rightarrow> int \<Rightarrow> int \<Rightarrow> error + int list" where
  "py_range start stop step =
     (if step = 0 then Inl ValueError
      else if 0 < step then Inr (range_up start stop step)
      else Inr (range_down start stop step))"

text \<open>
  The integer branch of \<^verbatim>\<open>generate_param_combinations\<close>:
  \<^verbatim>\<open>list(range(start, end + (1 if step > 0 else -1), step))\<close>.
\<close>

definition int_values :: "int \<Rightarrow> int \<Rightarrow> int \<Rightarrow> error + int list" where
  "int_values start end step = py_range start (end + (if 0 < step then 1 else - 1)) step"

lemma map_upt_shift:
  "map f [0..<Suc n] = f 0 # map (\<lambda>k. f (Suc k)) [0..<n]"
  by (simp add: map_upt_Suc del: upt_Suc)

lemma range_up_progression:
  "0 < step \<Longrightarrow>
   \<exists>n. range_up v stop step = map (\<lambda>k. v + int k * step) [0..<n]
     \<and> (\<forall>k. k < n \<longleftrightarrow> v + int k * step < stop)"
proof (induction v stop step rule: range_up.induct)
  case (1 v stop step)
  show ?case
  proof (cases "v < stop")
    case True
    with 1 obtain n where n: "range_up (v + step) stop step = map (\<lambda>k. v + step + int k * step) [0..<n]"
      and k: "\<And>k. k < n \<longleftrightarrow> v + step + int k * step < stop"
      by blast
    have a: "range_up v stop step = map (\<lambda>k. v + int k * step) [0..<Suc n]"
      using True 1(2) n
      by (subst range_up.simps, subst map_upt_shift) (simp add: algebra_simps)
    have b: "k < Suc n \<longleftrightarrow> v + int k * step < stop" for k
    proof (cases k)
      case 0
      then show ?thesis using True by simp
    next
      case (Suc j)
      then show ?thesis using k [of j] by (simp add: algebra_simps)
    qed
    from a b show ?thesis by blast
  next
    case False
    have "\<not> v + int k * step < stop" for k
    proof -
      have "0 \<le> int k * step" using 1(2) by simp
      then show ?thesis using False by linarith
    qed
    moreover have "range_up v stop step = []"
      using False by (subst range_up.simps) simp
    ultimately show ?thesis by (intro exI [of _ 0]) simp
  qed
qed

lemma range_down_progression:
  "step < 0 \<Longrightarrow>
   \<exists>n. range_down v stop step = map (\<lambda>k. v + int k * step) [0..<n]
     \<and> (\<forall>k. k < n \<longleftrightarrow> stop < v + int k * step)"
proof (induction v stop step rule: range_down.induct)
  case (1 v stop step)
  show ?case
  proof (cases "stop < v")
    case True
    with 1 obtain n where n: "range_down (v + step) stop step = map (\<lambda>k. v + step + int k * step) [0..<n]"
      and k: "\<And>k. k < n \<longleftrightarrow> stop < v + step + int k * step"
      by blast
    have a: "range_down v stop step = map (\<lambda>k. v + int k * step) [0..<Suc n]"
      using True 1(2) n
      by (subst range_down.simps, subst map_upt_shift) (simp add: algebra_simps)
    have b: "k < Suc n \<longleftrightarrow> stop < v + int k * step" for k
    proof (cases k)
      case 0
      then show ?thesis using True by simp
    next
      case (Suc j)
      then show ?thesis using k [of j] by (simp add: algebra_simps)
    qed
    from a b show ?thesis by blast
  next
    case False
    have "\<not> stop < v + int k * step" for k
    proof -
      have "int k * step \<le> 0" using 1(2) by (simp add: mult_nonneg_nonpos)
      then show ?thesis using False by linarith
    qed
    moreover have "range_down v stop step = []"
      using False by (subst range_down.simps) simp
    ultimately show ?thesis by (intro exI [of _ 0]) simp
  qed
qed

lemma int_values_1_5_2: "int_values 1 5 2 = Inr [1, 3, 5]"
  by (simp add: int_values_def py_range_def range_up.simps)

text \<open>
  C9. For integer start, end and a nonzero integer step the expansion is the walk
  \<open>start, start + step, ...\<close>: it holds the \<open>k\<close>-th term exactly while that term has not
  passed \<open>end\<close> in the direction of the step, so \<open>end\<close> itself is included when the walk
  hits it; and the spec \<open>(1, 5, 2)\<close> expands to \<open>[1, 3, 5]\<close>.
\<close>

theorem int_values_inclusive_walk:
  assumes "step \<noteq> 0"
  shows "(\<exists>n. int_values start end step = Inr (map (\<lambda>k. start + int k * step) [0..<n])
      \<and> (\<forall>k. k < n \<longleftrightarrow>
            (if 0 < step then start + int k * step \<le> end else end \<le> start + int k * step)))
    \<and> int_values 1 5 2 = Inr [1, 3, 5]"
proof (intro conjI)
  show "int_values 1 5 2 = Inr [1, 3, 5]" by (rule int_values_1_5_2)
  show "\<exists>n. int_values start end step = Inr (map (\<lambda>k. start + int k * step) [0..<n])
      \<and> (\<forall>k. k < n \<longleftrightarrow>
            (if 0 < step then start + int k * step \<le> end else end \<le> start + int k * step))"
  proof (cases "0 < step")
    case True
    from range_up_progression [OF True, of start "end + 1"]
    show ?thesis using True by (auto simp: int_values_def py_range_def)
  next
    case False
    with assms have neg: "step < 0" by simp
    from range_down_progression [OF neg, of start "end - 1"]
    show ?thesis using neg by (auto simp: int_values_def py_range_def)
  qed
qed

theorem int_values_inclusive_walk_witness:
  "(3::int) \<noteq> 0
   \<and> (\<exists>n. int_values 2 11 3 = Inr (map (\<lambda>k. 2 + int k * 3) [0..<n])
      \<and> (\<forall>k. k < n \<longleftrightarrow> 2 + int k * 3 \<le> (11::int)))
   \<and> int_values 1 5 2 = Inr [1, 3, 5]"
  using int_values_inclusive_walk [of 3 2 11] by simp

section \<open>Strings\<close>

text \<open>
  A Python \<^verbatim>\<open>str\<close> is modelled as a \<^typ>\<open>string\<close> whose characters are code points below 256.
  \<^verbatim>\<open>str.isspace\<close> holds in that range for tab, line feed, vertical tab, form feed, carriage
  return, the separators 28 to 31, space, NEL (133) and the no-break space (160).
\<close>

definition isspace :: "char \<Rightarrow> bool" where
  "isspace c = (of_char c \<in> {9, 10, 11, 12, 13, 28, 29, 30, 31, 32, 133, 160 :: nat})"

text \<open>\<^verbatim>\<open>s.split(c)\<close> for a one-character separator: the segments between the separators.\<close>

fun split_on :: "char \<Rightarrow> string \<Rightarrow> string list" where
  "split_on c [] = [[]]"
| "split_on c (x # xs) =
     (if x = c then [] # split_on c xs
      else (case split_on c xs of [] \<Rightarrow> [[x]] | s # ss \<Rightarrow> (x # s) # ss))"

text \<open>\<^verbatim>\<open>s.split()\<close>: the maximal runs of characters that are not whitespace.\<close>

fun split_ws_from :: "string \<Rightarrow> string \<Rightarrow> string list" where
  "split_ws_from cur [] = (if cur = [] then [] else [cur])"
| "split_ws_from cur (x # xs) =
     (if isspace x then (if cur = [] then split_ws_from [] xs else cur # split_ws_from [] xs)
      else split_ws_from (cur @ [x]) xs)"

definition split_ws :: "string \<Rightarrow> string list" where
  "split_ws s = split_ws_from [] s"

text \<open>\<^verbatim>\<open>s.strip()\<close> and \<^verbatim>\<open>s.strip(c)\<close>.\<close>

definition strip :: "string \<Rightarrow> string" where
  "strip s = rev (dropWhile isspace (rev (dropWhile isspace s)))"

definition strip_char :: "char \<Rightarrow> string \<Rightarrow> string" where
  "strip_char c s = rev (dropWhile (\<lambda>x. x = c) (rev (dropWhile (\<lambda>x. x = c) s)))"

text \<open>\<^verbatim>\<open>sep.join(parts)\<close>.\<close>

fun join :: "string \<Rightarrow> string list \<Rightarrow> string" where
  "join sep [] = []"
| "join sep [t] = t"
| "join sep (t # ts) = t @ sep @ join sep ts"

section \<open>The template parser\<close>

text \<open>
  \<^verbatim>\<open>parse_input_file\<close>, from the list of lines on (reading the file is not modelled).
  A line is adjustable when \<^verbatim>\<open>'!' in line and ',' in line.split('!')[1]\<close>; its names are
  \<^verbatim>\<open>[n.strip().strip(',') for n in comment.split(',') if n.strip()]\<close> with
  \<^verbatim>\<open>comment = line.split('!')[1].split('(')[0]\<close>, its values \<^verbatim>\<open>line.split('!')[0].split()\<close>.
\<close>

type_synonym param_map = "string \<rightharpoonup> nat \<times> nat"

definition annotated :: "string \<Rightarrow> bool" where
  "annotated line \<longleftrightarrow>
     CHR ''!'' \<in> set line \<and> CHR '','' \<in> set (split_on CHR ''!'' line ! 1)"

definition line_names :: "string \<Rightarrow> string list" where
  "line_names line =
     (let comment = hd (split_on CHR ''('' (split_on CHR ''!'' line ! 1))
      in map (\<lambda>n. strip_char CHR '','' (strip n))
           (filter (\<lambda>n. strip n \<noteq> []) (split_on CHR '','' comment)))"

definition line_values :: "string \<Rightarrow> string list" where
  "line_values line = split_ws (hd (split_on CHR ''!'' line))"

text \<open>The inner loop \<^verbatim>\<open>for pos, name in enumerate(names)\<close>, from position \<open>pos\<close> on.\<close>

fun assign_names :: "nat \<Rightarrow> nat \<Rightarrow> nat \<Rightarrow> string list \<Rightarrow> param_map \<Rightarrow> param_map" where
  "assign_names idx pos nvalues [] pm = pm"
| "assign_names idx pos nvalues (name # names) pm =
     assign_names idx (Suc pos) nvalues names
       (if pos < nvalues then pm(name \<mapsto> (idx, pos)) else pm)"

text \<open>The outer loop \<^verbatim>\<open>for idx, line in enumerate(lines)\<close>, from line \<open>idx\<close> on.\<close>

fun parse_lines :: "nat \<Rightarrow> string list \<Rightarrow> param_map \<Rightarrow> param_map" where
  "parse_lines idx [] pm = pm"
| "parse_lines idx (line # lines) pm =
     parse_lines (Suc idx) lines
       (if annotated line
        then assign_names idx 0 (length (line_values line)) (line_names line) pm
        else pm)"

definition parse_input_file :: "string list \<Rightarrow> string list \<times> param_map" where
  "parse_input_file lines = (lines, parse_lines 0 lines Map.empty)"

subsection \<open>Facts about splitting\<close>

lemma split_on_nonempty [simp]: "split_on c s \<noteq> []"
  by (induction s) (auto split: list.splits)

lemma split_on_segments: "seg \<in> set (split_on c s) \<Longrightarrow> set seg \<subseteq> set s \<and> c \<notin> set seg"
proof (induction s arbitrary: seg)
  case Nil
  then show ?case by simp
next
  case (Cons x xs)
  show ?case
  proof (cases "x = c")
    case True
    with Cons show ?thesis by auto
  next
    case False
    obtain t ts where ts: "split_on c xs = t # ts"
      by (cases "split_on c xs") auto
    with Cons.prems False have "seg = x # t \<or> seg \<in> set ts" by auto
    then show ?thesis
    proof
      assume "seg = x # t"
      moreover have "set t \<subseteq> set xs \<and> c \<notin> set t" using Cons.IH [of t] ts by simp
      ultimately show ?thesis using False by auto
    next
      assume "seg \<in> set ts"
      then have "set seg \<subseteq> set xs \<and> c \<notin> set seg" using Cons.IH [of seg] ts by simp
      then show ?thesis by auto
    qed
  qed
qed

lemma split_on_marker_length: "c \<in> set s \<Longrightarrow> 1 < length (split_on c s)"
proof (induction s)
  case Nil
  then show ?case by simp
next
  case (Cons x xs)
  show ?case
  proof (cases "x = c")
    case True
    have "split_on c xs \<noteq> []" by simp
    then show ?thesis using True by (simp add: Suc_lessI)
  next
    case False
    with Cons have "1 < length (split_on c xs)" by simp
    then show ?thesis using False by (cases "split_on c xs") auto
  qed
qed

lemma annotated_has_marker_and_separator:
  assumes "annotated line"
  shows "CHR ''!'' \<in> set line \<and> CHR '','' \<in> set line"
proof -
  from assms have m: "CHR ''!'' \<in> set line"
    and s: "CHR '','' \<in> set (split_on CHR ''!'' line ! 1)"
    by (simp_all add: annotated_def)
  from m have "1 < length (split_on CHR ''!'' line)" by (rule split_on_marker_length)
  then have "split_on CHR ''!'' line ! 1 \<in> set (split_on CHR ''!'' line)" by simp
  then have "set (split_on CHR ''!'' line ! 1) \<subseteq> set line"
    using split_on_segments by blast
  with m s show ?thesis by blast
qed

subsection \<open>The parser as a list of entries\<close>

text \<open>
  The parser as the spec words it: every adjustable line lists its entries, name \<open>k\<close> at
  token \<open>k\<close> while \<open>k\<close> is below both counts, and the entries are applied in order.
\<close>

definition line_entries :: "nat \<Rightarrow> string \<Rightarrow> (string \<times> nat \<times> nat) list" where
  "line_entries idx line =
     (if annotated line
      then map (\<lambda>k. (line_names line ! k, (idx, k)))
             [0..<min (length (line_names line)) (length (line_values line))]
      else [])"

fun all_entries :: "nat \<Rightarrow> string list \<Rightarrow> (string \<times> nat \<times> nat) list" where
  "all_entries idx [] = []"
| "all_entries idx (line # lines) = line_entries idx line @ all_entries (Suc idx) lines"

definition occurs :: "string list \<Rightarrow> nat \<Rightarrow> nat \<Rightarrow> string \<Rightarrow> bool" where
  "occurs lines idx k name \<longleftrightarrow>
     idx < length lines \<and> annotated (lines ! idx)
     \<and> k < length (line_names (lines ! idx)) \<and> k < length (line_values (lines ! idx))
     \<and> line_names (lines ! idx) ! k = name"

definition upd_entry :: "string \<times> nat \<times> nat \<Rightarrow> param_map \<Rightarrow> param_map" where
  "upd_entry e pm = pm(fst e \<mapsto> snd e)"

definition slot_lt :: "nat \<times> nat \<Rightarrow> nat \<times> nat \<Rightarrow> bool" where
  "slot_lt a b \<longleftrightarrow> fst a < fst b \<or> (fst a = fst b \<and> snd a < snd b)"

lemma upd_entry_pair: "upd_entry (n, v) pm = pm(n \<mapsto> v)"
  by (simp add: upd_entry_def)

lemma upd_entry_same: "upd_entry e pm (fst e) = Some (snd e)"
  by (simp add: upd_entry_def)

lemma upd_entry_diff: "name \<noteq> fst e \<Longrightarrow> upd_entry e pm name = pm name"
  by (simp add: upd_entry_def)

lemma assign_names_fold:
  "assign_names idx pos nv names pm =
     fold upd_entry (map (\<lambda>k. (names ! k, (idx, pos + k))) [0..<min (length names) (nv - pos)]) pm"
proof (induction names arbitrary: pos pm)
  case Nil
  then show ?case by simp
next
  case (Cons n ns)
  show ?case
  proof (cases "pos < nv")
    case True
    then have m: "min (length (n # ns)) (nv - pos) = Suc (min (length ns) (nv - Suc pos))"
      by auto
    have "assign_names idx pos nv (n # ns) pm
        = assign_names idx (Suc pos) nv ns (upd_entry (n, (idx, pos)) pm)"
      using True by (simp add: upd_entry_pair)
    also have "\<dots> = fold upd_entry
        (map (\<lambda>k. (ns ! k, (idx, Suc pos + k))) [0..<min (length ns) (nv - Suc pos)])
        (upd_entry (n, (idx, pos)) pm)"
      by (rule Cons.IH)
    also have "\<dots> = fold upd_entry
        (map (\<lambda>k. ((n # ns) ! k, (idx, pos + k))) [0..<Suc (min (length ns) (nv - Suc pos))]) pm"
      unfolding map_upt_shift by simp
    finally show ?thesis unfolding m .
  next
    case False
    then show ?thesis by (simp add: Cons.IH)
  qed
qed

lemma parse_lines_fold:
  "parse_lines idx lines pm = fold upd_entry (all_entries idx lines) pm"
  by (induction lines arbitrary: idx pm) (simp_all add: assign_names_fold line_entries_def)

lemma all_entries_member:
  "(name, (i, k)) \<in> set (all_entries idx lines)
     \<longleftrightarrow> idx \<le> i \<and> occurs lines (i - idx) k name"
proof (induction lines arbitrary: idx)
  case Nil
  then show ?case by (simp add: occurs_def)
next
  case (Cons l ls)
  have here: "(name, (i, k)) \<in> set (line_entries idx l) \<longleftrightarrow> i = idx \<and> occurs (l # ls) 0 k name"
    by (auto simp: line_entries_def occurs_def)
  have there: "idx < i \<Longrightarrow> occurs (l # ls) (i - idx) k name \<longleftrightarrow> occurs ls (i - Suc idx) k name"
  proof -
    assume "idx < i"
    then have "i - idx = Suc (i - Suc idx)" by simp
    then show ?thesis by (simp add: occurs_def)
  qed
  show ?case
  proof (cases "i = idx")
    case True
    then show ?thesis using here Cons.IH [of "Suc idx"] by auto
  next
    case False
    then show ?thesis using here there Cons.IH [of "Suc idx"] by auto
  qed
qed

lemma all_entries_lower: "e \<in> set (all_entries idx lines) \<Longrightarrow> idx \<le> fst (snd e)"
  using all_entries_member [of "fst e" "fst (snd e)" "snd (snd e)" idx lines] by simp

lemma line_entries_sorted: "sorted_wrt (\<lambda>a b. slot_lt (snd a) (snd b)) (line_entries idx line)"
  by (simp add: line_entries_def sorted_wrt_map slot_lt_def sorted_wrt_iff_nth_less)

lemma line_entries_idx: "e \<in> set (line_entries idx line) \<Longrightarrow> fst (snd e) = idx"
  by (auto simp: line_entries_def)

lemma all_entries_sorted: "sorted_wrt (\<lambda>a b. slot_lt (snd a) (snd b)) (all_entries idx lines)"
proof (induction lines arbitrary: idx)
  case Nil
  then show ?case by simp
next
  case (Cons l ls)
  have "slot_lt (snd a) (snd b)"
    if "a \<in> set (line_entries idx l)" "b \<in> set (all_entries (Suc idx) ls)" for a b
    using line_entries_idx [OF that(1)] all_entries_lower [OF that(2)]
    by (simp add: slot_lt_def)
  then show ?case
    by (simp add: sorted_wrt_append line_entries_sorted Cons.IH)
qed

lemma fold_upd_other:
  "name \<notin> fst ` set es \<Longrightarrow> fold upd_entry es pm name = pm name"
  by (induction es arbitrary: pm) (auto simp: upd_entry_def)

lemma fold_upd_last:
  assumes "sorted_wrt (\<lambda>a b. slot_lt (snd a) (snd b)) es"
    and "fold upd_entry es pm name = Some v"
  shows "((name, v) \<in> set es \<and> (\<forall>w. (name, w) \<in> set es \<longrightarrow> w = v \<or> slot_lt w v))
       \<or> (name \<notin> fst ` set es \<and> pm name = Some v)"
  using assms
proof (induction es arbitrary: pm)
  case Nil
  then show ?case by simp
next
  case (Cons e es)
  from Cons.prems have sorted: "sorted_wrt (\<lambda>a b. slot_lt (snd a) (snd b)) es"
    and before: "\<And>b. b \<in> set es \<Longrightarrow> slot_lt (snd e) (snd b)"
    and res: "fold upd_entry es (upd_entry e pm) name = Some v"
    by simp_all
  from Cons.IH [OF sorted res]
  show ?case
  proof
    assume a: "(name, v) \<in> set es \<and> (\<forall>w. (name, w) \<in> set es \<longrightarrow> w = v \<or> slot_lt w v)"
    then have "slot_lt (snd e) v" using before [of "(name, v)"] by simp
    with a show ?thesis by (cases e) auto
  next
    assume a: "name \<notin> fst ` set es \<and> upd_entry e pm name = Some v"
    show ?thesis
    proof (cases "fst e = name")
      case True
      with a have "e = (name, v)" by (cases e) (simp add: upd_entry_def)
      moreover have "(name, w) \<notin> set es" for w using a by force
      ultimately show ?thesis by auto
    next
      case False
      with a show ?thesis by (auto simp: upd_entry_def)
    qed
  qed
qed

lemma fold_upd_defined:
  "name \<in> fst ` set es \<Longrightarrow> \<exists>v. fold upd_entry es pm name = Some v"
proof (induction es arbitrary: pm)
  case Nil
  then show ?case by simp
next
  case (Cons e es)
  show ?case
  proof (cases "name \<in> fst ` set es")
    case True
    then show ?thesis using Cons.IH by simp
  next
    case False
    with Cons.prems have "fst e = name" by auto
    then show ?thesis using False upd_entry_same [of e pm] by (simp add: fold_upd_other)
  qed
qed

lemma slot_lt_asym: "slot_lt a b \<Longrightarrow> \<not> slot_lt b a \<and> a \<noteq> b"
  by (auto simp: slot_lt_def)

lemma parse_lines_last_occurrence:
  "parse_lines 0 lines Map.empty name = Some (idx, pos)
     \<longleftrightarrow> occurs lines idx pos name
         \<and> (\<forall>i k. occurs lines i k name \<longrightarrow> i < idx \<or> (i = idx \<and> k \<le> pos))"
proof
  assume "parse_lines 0 lines Map.empty name = Some (idx, pos)"
  then have "fold upd_entry (all_entries 0 lines) Map.empty name = Some (idx, pos)"
    by (simp add: parse_lines_fold)
  from fold_upd_last [OF all_entries_sorted this]
  have in_es: "(name, (idx, pos)) \<in> set (all_entries 0 lines)"
    and mx: "\<And>w. (name, w) \<in> set (all_entries 0 lines) \<Longrightarrow> w = (idx, pos) \<or> slot_lt w (idx, pos)"
    by auto
  have "i < idx \<or> (i = idx \<and> k \<le> pos)" if "occurs lines i k name" for i k
    using mx [of "(i, k)"] that by (auto simp: all_entries_member slot_lt_def)
  then show "occurs lines idx pos name
         \<and> (\<forall>i k. occurs lines i k name \<longrightarrow> i < idx \<or> (i = idx \<and> k \<le> pos))"
    using in_es by (simp add: all_entries_member)
next
  assume a: "occurs lines idx pos name
         \<and> (\<forall>i k. occurs lines i k name \<longrightarrow> i < idx \<or> (i = idx \<and> k \<le> pos))"
  then have in_es: "(name, (idx, pos)) \<in> set (all_entries 0 lines)"
    by (simp add: all_entries_member)
  then have "name \<in> fst ` set (all_entries 0 lines)" by force
  then obtain v where v: "fold upd_entry (all_entries 0 lines) Map.empty name = Some v"
    using fold_upd_defined by blast
  from fold_upd_last [OF all_entries_sorted v]
  have v_in: "(name, v) \<in> set (all_entries 0 lines)"
    and mx: "\<And>w. (name, w) \<in> set (all_entries 0 lines) \<Longrightarrow> w = v \<or> slot_lt w v"
    by auto
  obtain i k where ik: "v = (i, k)" by (cases v)
  from v_in ik have "occurs lines i k name" by (simp add: all_entries_member)
  with a have "i < idx \<or> (i = idx \<and> k \<le> pos)" by blast
  moreover from mx [OF in_es] ik have "(idx, pos) = (i, k) \<or> slot_lt (idx, pos) (i, k)" by simp
  ultimately have "v = (idx, pos)" using ik by (auto simp: slot_lt_def)
  with v show "parse_lines 0 lines Map.empty name = Some (idx, pos)"
    by (simp add: parse_lines_fold)
qed

lemma parse_lines_none:
  "parse_lines 0 lines Map.empty name = None \<longleftrightarrow> \<not> (\<exists>i k. occurs lines i k name)"
proof -
  have keys: "name \<in> fst ` set (all_entries 0 lines) \<longleftrightarrow> (\<exists>i k. occurs lines i k name)"
    using all_entries_member [of name _ _ 0 lines] by force
  show ?thesis
  proof (cases "\<exists>i k. occurs lines i k name")
    case True
    with keys have "name \<in> fst ` set (all_entries 0 lines)" by simp
    from fold_upd_defined [OF this, of Map.empty] show ?thesis
      using True by (auto simp: parse_lines_fold)
  next
    case False
    with keys have "name \<notin> fst ` set (all_entries 0 lines)" by simp
    from fold_upd_other [OF this, of Map.empty] show ?thesis
      using False by (simp add: parse_lines_fold)
  qed
qed

text \<open>
  C7. The field map sends a name to \<open>(idx, pos)\<close> exactly when line \<open>idx\<close> is adjustable,
  \<open>pos\<close> is below both its token count and its name count, its \<open>pos\<close>-th listed name is
  that name, and no later entry (a later line, or a later position of the same line) lists
  the name: the \<open>k\<close>-th name goes with the \<open>k\<close>-th token, names beyond the token count
  are ignored and the last occurrence wins. A name that occurs nowhere is unmapped, and a
  line without the marker or without the separator has no entry; the line list is
  returned unchanged and there is no error case.
\<close>

theorem parse_input_file_positional:
  "fst (parse_input_file lines) = lines
   \<and> (snd (parse_input_file lines) name = Some (idx, pos)
        \<longleftrightarrow> occurs lines idx pos name
            \<and> (\<forall>i k. occurs lines i k name \<longrightarrow> i < idx \<or> (i = idx \<and> k \<le> pos)))
   \<and> (snd (parse_input_file lines) name = None \<longleftrightarrow> \<not> (\<exists>i k. occurs lines i k name))
   \<and> (CHR ''!'' \<notin> set (lines ! j) \<or> CHR '','' \<notin> set (lines ! j)
        \<longrightarrow> \<not> occurs lines j k' name')"
proof (intro conjI)
  show "fst (parse_input_file lines) = lines"
    by (simp add: parse_input_file_def)
  show "snd (parse_input_file lines) name = Some (idx, pos)
        \<longleftrightarrow> occurs lines idx pos name
            \<and> (\<forall>i k. occurs lines i k name \<longrightarrow> i < idx \<or> (i = idx \<and> k \<le> pos))"
    by (simp add: parse_input_file_def parse_lines_last_occurrence)
  show "snd (parse_input_file lines) name = None \<longleftrightarrow> \<not> (\<exists>i k. occurs lines i k name)"
    by (simp add: parse_input_file_def parse_lines_none)
  show "CHR ''!'' \<notin> set (lines ! j) \<or> CHR '','' \<notin> set (lines ! j)
        \<longrightarrow> \<not> occurs lines j k' name'"
    using annotated_has_marker_and_separator [of "lines ! j"]
    by (auto simp: occurs_def)
qed

theorem parse_input_file_positional_witness:
  "snd (parse_input_file [''10 20 ! a, b, c'', ''no marker'', ''5 ! b, a'']) ''b'' = Some (2, 0)
   \<and> occurs [''10 20 ! a, b, c'', ''no marker'', ''5 ! b, a''] 2 0 ''b''
   \<and> occurs [''10 20 ! a, b, c'', ''no marker'', ''5 ! b, a''] 0 1 ''b''
   \<and> snd (parse_input_file [''10 20 ! a, b, c'', ''no marker'', ''5 ! b, a'']) ''c'' = None
   \<and> CHR ''!'' \<notin> set ''no marker''
   \<and> \<not> occurs [''10 20 ! a, b, c'', ''no marker'', ''5 ! b, a''] 1 0 ''no''"
proof -
  have e: "snd (parse_input_file [''10 20 ! a, b, c'', ''no marker'', ''5 ! b, a'']) ''b'' = Some (2, 0)"
    "occurs [''10 20 ! a, b, c'', ''no marker'', ''5 ! b, a''] 0 1 ''b''"
    "snd (parse_input_file [''10 20 ! a, b, c'', ''no marker'', ''5 ! b, a'']) ''c'' = None"
    "CHR ''!'' \<notin> set ''no marker''"
    by code_simp+
  show ?thesis
    using e parse_input_file_positional
      [of "[''10 20 ! a, b, c'', ''no marker'', ''5 ! b, a'']" "''b''" 2 0 1 0 "''no''"]
    by simp
qed

section \<open>Rewriting the template\<close>

text \<open>
  \<^verbatim>\<open>modify_input(lines, param_map, combo, param_names)\<close>. The loop runs over
  \<^verbatim>\<open>zip(param_names, combo)\<close>; \<^verbatim>\<open>param_map[name]\<close> raises KeyError for a missing name and
  \<^verbatim>\<open>new[ln]\<close>, \<^verbatim>\<open>nums[pos]\<close> raise IndexError out of range. The indices are those of the
  parser, so they are natural numbers (the line index \<^verbatim>\<open>ln\<close> is written \<open>lno\<close>). Python's \<^verbatim>\<open>str\<close> on the values is the parameter
  \<open>str\<close>. One iteration rewrites line \<open>ln\<close>:
  \<^verbatim>\<open>before, *rest = new[ln].split('!')\<close>, \<^verbatim>\<open>nums = before.split()\<close>,
  \<^verbatim>\<open>nums[pos] = str(val)\<close>, \<^verbatim>\<open>comment = '!' + rest[0] if rest else ''\<close>,
  \<^verbatim>\<open>new[ln] = ' '.join(nums) + ' ' + comment\<close>.
\<close>

definition rewrite_line :: "string \<Rightarrow> nat \<Rightarrow> string \<Rightarrow> error + string" where
  "rewrite_line line pos s =
     (let segs = split_on CHR ''!'' line;
          before_part = hd segs;
          rest = tl segs;
          nums = split_ws before_part
      in if pos < length nums
         then Inr (join '' '' (nums[pos := s]) @ '' ''
                   @ (if rest \<noteq> [] then CHR ''!'' # hd rest else []))
         else Inl IndexError)"

fun modify_loop ::
  "('v \<Rightarrow> string) \<Rightarrow> string list \<Rightarrow> param_map \<Rightarrow> (string \<times> 'v) list \<Rightarrow> error + string list"
where
  "modify_loop str new pm [] = Inr new"
| "modify_loop str new pm ((name, val) # pairs) =
     (case pm name of
        None \<Rightarrow> Inl KeyError
      | Some (lno, pos) \<Rightarrow>
          if lno < length new
          then (case rewrite_line (new ! lno) pos (str val) of
                  Inl e \<Rightarrow> Inl e
                | Inr line \<Rightarrow> modify_loop str (new[lno := line]) pm pairs)
          else Inl IndexError)"

definition modify_input ::
  "('v \<Rightarrow> string) \<Rightarrow> string list \<Rightarrow> param_map \<Rightarrow> 'v list \<Rightarrow> string list \<Rightarrow> error + string list"
where
  "modify_input str lines pm combo param_names = modify_loop str lines pm (zip param_names combo)"

text \<open>
  \<^verbatim>\<open>str\<close> on a Python int: an optional minus sign and the decimal digits.
\<close>

function str_nat :: "nat \<Rightarrow> string" where
  "str_nat n = (if n < 10 then [char_of (48 + n)] else str_nat (n div 10) @ [char_of (48 + n mod 10)])"
  by pat_completeness auto
termination
  by (relation "measure id") auto

declare str_nat.simps [simp del]

definition str_int :: "int \<Rightarrow> string" where
  "str_int i = (if i < 0 then CHR ''-'' # str_nat (nat (- i)) else str_nat (nat i))"

subsection \<open>Tokens survive a rewrite\<close>

definition token_ok :: "string \<Rightarrow> bool" where
  "token_ok s \<longleftrightarrow> s \<noteq> [] \<and> (\<forall>c \<in> set s. \<not> isspace c \<and> c \<noteq> CHR ''!'')"

definition line_sig :: "string \<Rightarrow> bool \<times> string \<times> nat" where
  "line_sig line =
     (CHR ''!'' \<in> set line,
      if CHR ''!'' \<in> set line then split_on CHR ''!'' line ! 1 else [],
      length (line_values line))"

lemma split_ws_from_run:
  "\<forall>c \<in> set t. \<not> isspace c \<Longrightarrow> split_ws_from cur (t @ rest) = split_ws_from (cur @ t) rest"
  by (induction t arbitrary: cur) simp_all

lemma split_ws_from_tokens:
  "\<forall>c \<in> set cur. \<not> isspace c \<Longrightarrow> t \<in> set (split_ws_from cur s) \<Longrightarrow>
   t \<noteq> [] \<and> (\<forall>c \<in> set t. \<not> isspace c) \<and> set t \<subseteq> set cur \<union> set s"
proof (induction s arbitrary: cur)
  case Nil
  from Nil(2) have "cur \<noteq> [] \<and> t = cur" by (cases "cur = []") simp_all
  with Nil(1) show ?case by simp
next
  case (Cons x xs)
  have empty_ok: "\<forall>c \<in> set ([] :: string). \<not> isspace c" by simp
  show ?case
  proof (cases "isspace x")
    case True
    have "(t = cur \<and> cur \<noteq> []) \<or> t \<in> set (split_ws_from [] xs)"
      using Cons.prems(2) True by (cases "cur = []") simp_all
    then show ?thesis
    proof
      assume "t = cur \<and> cur \<noteq> []"
      with Cons.prems(1) show ?thesis by auto
    next
      assume "t \<in> set (split_ws_from [] xs)"
      from Cons.IH [OF empty_ok this]
      have "t \<noteq> [] \<and> (\<forall>c \<in> set t. \<not> isspace c) \<and> set t \<subseteq> set xs" by simp
      then show ?thesis by auto
    qed
  next
    case False
    with Cons.prems(2) have mem: "t \<in> set (split_ws_from (cur @ [x]) xs)" by simp
    have ok: "\<forall>c \<in> set (cur @ [x]). \<not> isspace c" using False Cons.prems(1) by simp
    from Cons.IH [OF ok mem]
    have "t \<noteq> [] \<and> (\<forall>c \<in> set t. \<not> isspace c) \<and> set t \<subseteq> set (cur @ [x]) \<union> set xs" .
    then show ?thesis by auto
  qed
qed

lemma split_ws_tokens:
  "t \<in> set (split_ws s) \<Longrightarrow> t \<noteq> [] \<and> (\<forall>c \<in> set t. \<not> isspace c) \<and> set t \<subseteq> set s"
  using split_ws_from_tokens [of "[]" t s] by (simp add: split_ws_def)

lemma isspace_space [simp]: "isspace CHR '' ''"
  by (simp add: isspace_def)

lemma split_ws_join:
  "\<forall>t \<in> set ts. t \<noteq> [] \<and> (\<forall>c \<in> set t. \<not> isspace c) \<Longrightarrow>
   split_ws (join '' '' ts @ '' '') = ts"
proof (induction "'' ''" ts rule: join.induct)
  case 1
  show ?case by (simp add: split_ws_def)
next
  case (2 t)
  then have "split_ws_from [] (t @ '' '') = split_ws_from ([] @ t) '' ''"
    by (intro split_ws_from_run) simp
  then show ?case using 2 by (simp add: split_ws_def)
next
  case (3 t u us)
  from 3(2) have t: "t \<noteq> []" "\<forall>c \<in> set t. \<not> isspace c" by simp_all
  have "split_ws_from [] (t @ (CHR '' '' # join '' '' (u # us) @ '' ''))
      = split_ws_from ([] @ t) (CHR '' '' # join '' '' (u # us) @ '' '')"
    using t(2) by (rule split_ws_from_run)
  also have "\<dots> = t # split_ws (join '' '' (u # us) @ '' '')"
    using t(1) by (simp add: split_ws_def)
  also have "\<dots> = t # u # us" using 3 by simp
  finally show ?case by (simp add: split_ws_def)
qed

lemma join_chars: "set (join sep ts) \<subseteq> set sep \<union> \<Union> (set ` set ts)"
  by (induction sep ts rule: join.induct) auto

lemma split_on_prefix:
  "c \<notin> set a \<Longrightarrow> split_on c (a @ c # b) = a # split_on c b"
  by (induction a) auto

lemma split_on_none: "c \<notin> set a \<Longrightarrow> split_on c a = [a]"
  by (induction a) auto

lemma line_values_tokens: "t \<in> set (line_values line) \<Longrightarrow> token_ok t"
proof -
  assume t: "t \<in> set (line_values line)"
  have "hd (split_on CHR ''!'' line) \<in> set (split_on CHR ''!'' line)" by simp
  then have no: "CHR ''!'' \<notin> set (hd (split_on CHR ''!'' line))"
    using split_on_segments by blast
  from t split_ws_tokens [of t "hd (split_on CHR ''!'' line)"]
  have "t \<noteq> [] \<and> (\<forall>c \<in> set t. \<not> isspace c) \<and> set t \<subseteq> set (hd (split_on CHR ''!'' line))"
    by (simp add: line_values_def)
  with no show ?thesis by (auto simp: token_ok_def)
qed

lemma rewrite_line_marked:
  assumes m: "CHR ''!'' \<in> set line"
    and p: "pos < length (line_values line)"
    and s: "token_ok s"
  shows "\<exists>line'. rewrite_line line pos s = Inr line'
           \<and> line_sig line' = line_sig line
           \<and> line_values line' = (line_values line)[pos := s]"
proof -
  from split_on_marker_length [OF m]
  obtain b r more where segs: "split_on CHR ''!'' line = b # r # more"
    by (cases "split_on CHR ''!'' line"; cases "tl (split_on CHR ''!'' line)") auto
  define nums where "nums = (line_values line)[pos := s]"
  define front where "front = join '' '' nums @ '' ''"
  have lv: "line_values line = split_ws b" by (simp add: line_values_def segs)
  have res: "rewrite_line line pos s = Inr (front @ CHR ''!'' # r)"
    using p by (simp add: rewrite_line_def segs lv nums_def front_def Let_def)
  have toks: "token_ok t" if "t \<in> set nums" for t
  proof -
    from that have "t = s \<or> t \<in> set (line_values line)"
      unfolding nums_def using set_update_subset_insert [of "line_values line" pos s] by auto
    then show ?thesis using s line_values_tokens by blast
  qed
  have "CHR ''!'' \<notin> set (join '' '' nums)"
    using join_chars [of "'' ''" nums] toks by (auto simp: token_ok_def)
  then have front_no: "CHR ''!'' \<notin> set front" by (simp add: front_def)
  have "r \<in> set (split_on CHR ''!'' line)" by (simp add: segs)
  then have r_no: "CHR ''!'' \<notin> set r" using split_on_segments by blast
  have split': "split_on CHR ''!'' (front @ CHR ''!'' # r) = [front, r]"
    using split_on_prefix [OF front_no, of r] split_on_none [OF r_no] by simp
  have "\<forall>t \<in> set nums. t \<noteq> [] \<and> (\<forall>c \<in> set t. \<not> isspace c)"
    using toks by (auto simp: token_ok_def)
  then have "split_ws front = nums"
    unfolding front_def by (rule split_ws_join)
  moreover have "line_values (front @ CHR ''!'' # r) = split_ws front"
    by (simp add: line_values_def split')
  ultimately have vals': "line_values (front @ CHR ''!'' # r) = nums" by simp
  have "line_sig (front @ CHR ''!'' # r) = line_sig line"
    using m by (simp add: line_sig_def split' segs vals' nums_def)
  with res vals' show ?thesis by (simp add: nums_def)
qed

lemma line_sig_fields:
  assumes "line_sig a = line_sig b"
  shows "(CHR ''!'' \<in> set a \<longleftrightarrow> CHR ''!'' \<in> set b)
       \<and> length (line_values a) = length (line_values b)"
  using assms by (simp add: line_sig_def)

lemma line_entries_sig:
  assumes "line_sig a = line_sig b"
  shows "line_entries idx a = line_entries idx b"
proof (cases "CHR ''!'' \<in> set a")
  case True
  with assms have mb: "CHR ''!'' \<in> set b"
    and seg: "split_on CHR ''!'' a ! 1 = split_on CHR ''!'' b ! 1"
    and len: "length (line_values a) = length (line_values b)"
    by (simp_all add: line_sig_def)
  from True mb seg have "annotated a = annotated b" "line_names a = line_names b"
    by (simp_all add: annotated_def line_names_def)
  with len show ?thesis by (simp add: line_entries_def)
next
  case False
  with assms have "CHR ''!'' \<notin> set b" by (simp add: line_sig_def)
  with False show ?thesis by (simp add: line_entries_def annotated_def)
qed

lemma all_entries_sig:
  "map line_sig ls = map line_sig ls' \<Longrightarrow> all_entries idx ls = all_entries idx ls'"
proof (induction ls arbitrary: ls' idx)
  case Nil
  then show ?case by simp
next
  case (Cons l ls)
  then obtain l' ls'' where ls': "ls' = l' # ls''" by (cases ls') auto
  with Cons.prems have "line_sig l = line_sig l'" "map line_sig ls = map line_sig ls''"
    by simp_all
  then show ?case using Cons.IH [of ls'' "Suc idx"] line_entries_sig [of l l' idx]
    by (simp add: ls')
qed

lemma parse_lines_sig:
  "map line_sig ls = map line_sig ls' \<Longrightarrow> parse_lines 0 ls pm = parse_lines 0 ls' pm"
  by (simp add: parse_lines_fold all_entries_sig [of ls ls' 0])

subsection \<open>The rewriting loop keeps the field map\<close>

definition slot_ready :: "param_map \<Rightarrow> string list \<Rightarrow> string \<Rightarrow> bool" where
  "slot_ready pm new n \<longleftrightarrow>
     (\<exists>l p. pm n = Some (l, p) \<and> l < length new \<and> CHR ''!'' \<in> set (new ! l)
        \<and> p < length (line_values (new ! l)))"

lemma slot_ready_sig:
  assumes sig: "map line_sig new' = map line_sig new" and r: "slot_ready pm new n"
  shows "slot_ready pm new' n"
proof -
  from r obtain l p where lp: "pm n = Some (l, p)" "l < length new"
    "CHR ''!'' \<in> set (new ! l)" "p < length (line_values (new ! l))"
    by (auto simp: slot_ready_def)
  from sig have len: "length new' = length new" by (rule map_eq_imp_length_eq)
  have "map line_sig new' ! l = map line_sig new ! l" using sig by simp
  then have "line_sig (new' ! l) = line_sig (new ! l)" using lp(2) len by simp
  from line_sig_fields [OF this] lp len show ?thesis
    unfolding slot_ready_def by auto
qed

lemma modify_loop_roundtrip:
  assumes "\<forall>n \<in> fst ` set pairs. slot_ready pm new n"
    and "\<forall>v \<in> snd ` set pairs. token_ok (str v)"
    and "inj_on pm (fst ` set pairs)"
  shows "\<exists>final. modify_loop str new pm pairs = Inr final
      \<and> map line_sig final = map line_sig new
      \<and> (\<forall>n v l p. map_of (rev pairs) n = Some v \<longrightarrow> pm n = Some (l, p)
            \<longrightarrow> line_values (final ! l) ! p = str v)
      \<and> (\<forall>l p. Some (l, p) \<notin> pm ` fst ` set pairs
            \<longrightarrow> line_values (final ! l) ! p = line_values (new ! l) ! p)"
  using assms
proof (induction pairs arbitrary: new)
  case Nil
  then show ?case by simp
next
  case (Cons a pairs)
  obtain n v where a: "a = (n, v)" by (cases a)
  from Cons.prems(1) a have "slot_ready pm new n" by simp
  then obtain l p where lp: "pm n = Some (l, p)" "l < length new"
    "CHR ''!'' \<in> set (new ! l)" "p < length (line_values (new ! l))"
    by (auto simp: slot_ready_def)
  from Cons.prems(2) a have tok: "token_ok (str v)" by simp
  from rewrite_line_marked [OF lp(3) lp(4) tok]
  obtain line' where line': "rewrite_line (new ! l) p (str v) = Inr line'"
    "line_sig line' = line_sig (new ! l)"
    "line_values line' = (line_values (new ! l))[p := str v]"
    by blast
  define new1 where "new1 = new[l := line']"
  have step: "modify_loop str new pm (a # pairs) = modify_loop str new1 pm pairs"
    by (simp add: a lp line' new1_def)
  have sig1: "map line_sig new1 = map line_sig new"
    unfolding new1_def using lp(2) line'(2)
    by (simp add: map_update list_update_same_conv)
  have p1: "\<forall>n \<in> fst ` set pairs. slot_ready pm new1 n"
    using Cons.prems(1) slot_ready_sig [OF sig1] by simp
  have p2: "\<forall>v \<in> snd ` set pairs. token_ok (str v)"
    using Cons.prems(2) by simp
  have p3: "inj_on pm (fst ` set pairs)"
    using Cons.prems(3) by (rule inj_on_subset) auto
  from Cons.IH [OF p1 p2 p3]
  obtain final where f1: "modify_loop str new1 pm pairs = Inr final"
    and f2: "map line_sig final = map line_sig new1"
    and f3: "\<And>m w l' p'. map_of (rev pairs) m = Some w \<Longrightarrow> pm m = Some (l', p')
            \<Longrightarrow> line_values (final ! l') ! p' = str w"
    and f4: "\<And>l' p'. Some (l', p') \<notin> pm ` fst ` set pairs
            \<Longrightarrow> line_values (final ! l') ! p' = line_values (new1 ! l') ! p'"
    by blast
  have here: "line_values (new1 ! l) ! p = str v"
    using lp(2) lp(4) line'(3) by (simp add: new1_def)
  have other: "line_values (new1 ! l') ! p' = line_values (new ! l') ! p'"
    if "(l', p') \<noteq> (l, p)" for l' p'
  proof (cases "l' = l")
    case True
    with that have "p' \<noteq> p" by simp
    then show ?thesis using True lp(2) line'(3) by (simp add: new1_def)
  next
    case False
    then show ?thesis by (simp add: new1_def)
  qed
  have t1: "line_values (final ! l') ! p' = str w"
    if mo: "map_of (rev (a # pairs)) m = Some w" and pm: "pm m = Some (l', p')" for m w l' p'
  proof (cases "map_of (rev pairs) m")
    case (Some w')
    with mo have "w' = w" by (simp add: a map_add_def)
    with Some pm show ?thesis using f3 by blast
  next
    case None
    with mo have mn: "m = n" "w = v" by (auto simp: a map_add_def split: if_splits)
    from None have notin: "n \<notin> fst ` set pairs"
      using mn by (simp add: map_of_eq_None_iff)
    have "Some (l, p) \<notin> pm ` fst ` set pairs"
    proof
      assume "Some (l, p) \<in> pm ` fst ` set pairs"
      then obtain n' where n': "n' \<in> fst ` set pairs" "pm n' = Some (l, p)"
        by (metis (no_types, lifting) image_iff)
      have "n' = n"
        using Cons.prems(3) n' lp(1) by (auto simp: a inj_on_def)
      with n'(1) notin show False by simp
    qed
    from f4 [OF this] here mn pm lp(1) show ?thesis by simp
  qed
  have t2: "line_values (final ! l') ! p' = line_values (new ! l') ! p'"
    if "Some (l', p') \<notin> pm ` fst ` set (a # pairs)" for l' p'
  proof -
    from that have ne: "(l', p') \<noteq> (l, p)" using lp(1) by (auto simp: a image_iff)
    from that have "Some (l', p') \<notin> pm ` fst ` set pairs" by auto
    from f4 [OF this] other [OF ne] show ?thesis by simp
  qed
  show ?case
  proof (intro exI [of _ final] conjI allI impI)
    show "modify_loop str new pm (a # pairs) = Inr final" using step f1 by simp
    show "map line_sig final = map line_sig new" using f2 sig1 by simp
  next
    fix m w l' p'
    assume "map_of (rev (a # pairs)) m = Some w" "pm m = Some (l', p')"
    then show "line_values (final ! l') ! p' = str w" by (rule t1)
  next
    fix l' p'
    assume "Some (l', p') \<notin> pm ` fst ` set (a # pairs)"
    then show "line_values (final ! l') ! p' = line_values (new ! l') ! p'" by (rule t2)
  qed
qed

lemma str_nat_digits:
  "str_nat n \<noteq> [] \<and> (\<forall>c \<in> set (str_nat n). 48 \<le> (of_char c :: nat) \<and> (of_char c :: nat) \<le> 57)"
proof (induction n rule: str_nat.induct)
  case (1 n)
  show ?case
  proof (cases "n < 10")
    case True
    then have "str_nat n = [char_of (48 + n)]" by (subst str_nat.simps) simp
    moreover have "(of_char (char_of (48 + n) :: char) :: nat) = 48 + n"
      using True by simp
    ultimately show ?thesis using True by simp
  next
    case False
    then have s: "str_nat n = str_nat (n div 10) @ [char_of (48 + n mod 10)]"
      by (subst str_nat.simps) simp
    have "n mod 10 < 10" by simp
    then have "(of_char (char_of (48 + n mod 10) :: char) :: nat) = 48 + n mod 10"
      by simp
    with 1 [OF False] s show ?thesis by auto
  qed
qed

lemma digit_token_char:
  assumes "48 \<le> (of_char c :: nat)" "(of_char c :: nat) \<le> 57"
  shows "\<not> isspace c \<and> c \<noteq> CHR ''!''"
proof -
  have "(of_char CHR ''!'' :: nat) = 33" by simp
  with assms have "c \<noteq> CHR ''!''" by auto
  moreover have "\<not> isspace c" using assms by (auto simp: isspace_def)
  ultimately show ?thesis by simp
qed

lemma parsed_slot_ready:
  assumes "parse_lines 0 lines Map.empty n = Some (l, p)"
  shows "slot_ready (parse_lines 0 lines Map.empty) lines n"
proof -
  from assms have "occurs lines l p n" by (simp add: parse_lines_last_occurrence)
  then have "l < length lines" "CHR ''!'' \<in> set (lines ! l)"
    "p < length (line_values (lines ! l))"
    by (simp_all add: occurs_def annotated_def)
  with assms show ?thesis unfolding slot_ready_def by blast
qed

lemma parsed_inj:
  "inj_on (parse_lines 0 lines Map.empty) (dom (parse_lines 0 lines Map.empty))"
proof (rule inj_onI)
  fix a b
  assume a: "a \<in> dom (parse_lines 0 lines Map.empty)"
    and eq: "parse_lines 0 lines Map.empty a = parse_lines 0 lines Map.empty b"
  from a obtain l p where la: "parse_lines 0 lines Map.empty a = Some (l, p)" by auto
  with eq have lb: "parse_lines 0 lines Map.empty b = Some (l, p)" by simp
  from la lb have "occurs lines l p a" "occurs lines l p b"
    by (simp_all add: parse_lines_last_occurrence)
  then show "a = b" by (simp add: occurs_def)
qed

lemma str_int_token_ok: "token_ok (str_int i)"
proof -
  have d: "token_ok (str_nat n)" for n
  proof -
    from str_nat_digits [of n] have ne: "str_nat n \<noteq> []"
      and dg: "\<And>c. c \<in> set (str_nat n) \<Longrightarrow> 48 \<le> (of_char c :: nat) \<and> (of_char c :: nat) \<le> 57"
      by simp_all
    have "\<not> isspace c \<and> c \<noteq> CHR ''!''" if "c \<in> set (str_nat n)" for c
      using dg [OF that] digit_token_char [of c] by simp
    with ne show ?thesis unfolding token_ok_def by simp
  qed
  have m: "\<not> isspace CHR ''-''" by (simp add: isspace_def)
  show ?thesis
  proof (cases "i < 0")
    case True
    from d [of "nat (- i)"] m show ?thesis
      using True unfolding token_ok_def str_int_def by simp
  next
    case False
    from d [of "nat i"] show ?thesis
      using False unfolding str_int_def by simp
  qed
qed

text \<open>
  C1. Let the field map come from parsing the template, let every scanned name be in it,
  and let the string form of every value be a token (not empty, no whitespace, no marker),
  as the string forms of Python's numbers are. Then the rewrite succeeds, parsing the
  rewritten lines gives the same field map, and the token at a scanned name's line and
  position is the string form of the value the combination gives that name (the last one,
  should a name be listed twice).
\<close>

theorem modify_input_roundtrip:
  assumes "pm = snd (parse_input_file lines)"
    and "set param_names \<subseteq> dom pm"
    and "\<forall>v \<in> set combo. token_ok (str v)"
  shows "\<exists>new. modify_input str lines pm combo param_names = Inr new
      \<and> snd (parse_input_file new) = pm
      \<and> (\<forall>name v lno pos.
            map_of (rev (zip param_names combo)) name = Some v \<longrightarrow> pm name = Some (lno, pos)
            \<longrightarrow> line_values (new ! lno) ! pos = str v)"
proof -
  have pm: "pm = parse_lines 0 lines Map.empty"
    using assms(1) by (simp add: parse_input_file_def)
  let ?pairs = "zip param_names combo"
  have names: "fst ` set ?pairs \<subseteq> set param_names"
    by (auto dest: set_zip_leftD)
  have vals: "snd ` set ?pairs \<subseteq> set combo"
    by (auto dest: set_zip_rightD)
  have a1: "\<forall>n \<in> fst ` set ?pairs. slot_ready pm lines n"
  proof
    fix n assume "n \<in> fst ` set ?pairs"
    with names have "n \<in> set param_names" by blast
    with assms(2) have "n \<in> dom pm" by blast
    then obtain l p where "pm n = Some (l, p)" by (cases "pm n") auto
    then show "slot_ready pm lines n" unfolding pm by (rule parsed_slot_ready)
  qed
  have a2: "\<forall>v \<in> snd ` set ?pairs. token_ok (str v)"
    using vals assms(3) by blast
  have "fst ` set ?pairs \<subseteq> dom pm" using names assms(2) by (rule subset_trans)
  then have a3: "inj_on pm (fst ` set ?pairs)"
    using parsed_inj [of lines] unfolding pm by (rule inj_on_subset [rotated])
  from modify_loop_roundtrip [OF a1 a2 a3]
  obtain final where f: "modify_loop str lines pm ?pairs = Inr final"
    "map line_sig final = map line_sig lines"
    "\<forall>n v l p. map_of (rev ?pairs) n = Some v \<longrightarrow> pm n = Some (l, p)
        \<longrightarrow> line_values (final ! l) ! p = str v"
    by blast
  have "snd (parse_input_file final) = pm"
    unfolding pm using parse_lines_sig [OF f(2), of Map.empty]
    by (simp add: parse_input_file_def)
  with f(1) f(3) show ?thesis
    unfolding modify_input_def by (intro exI [of _ final]) simp
qed

theorem modify_input_roundtrip_witness:
  "token_ok (str_int 7)
   \<and> snd (parse_input_file [''10 20 ! a, b'', ''3 ! c, d'']) ''b'' = Some (0, 1)
   \<and> (\<exists>new. modify_input str_int [''10 20 ! a, b'', ''3 ! c, d'']
               (snd (parse_input_file [''10 20 ! a, b'', ''3 ! c, d''])) [7] [''b''] = Inr new
        \<and> snd (parse_input_file new) = snd (parse_input_file [''10 20 ! a, b'', ''3 ! c, d''])
        \<and> line_values (new ! 0) ! 1 = str_int 7)"
proof -
  let ?L = "[''10 20 ! a, b'', ''3 ! c, d'']"
  have e: "snd (parse_input_file ?L) ''b'' = Some (0, 1)" by code_simp
  then have h2: "set [''b''] \<subseteq> dom (snd (parse_input_file ?L))" by auto
  have h3: "\<forall>v \<in> set [7]. token_ok (str_int v)" by (simp add: str_int_token_ok)
  have m: "map_of (rev (zip [''b''] [7 :: int])) ''b'' = Some 7" by simp
  from modify_input_roundtrip [OF refl h2 h3]
  obtain new where n: "modify_input str_int ?L (snd (parse_input_file ?L)) [7] [''b''] = Inr new"
    "snd (parse_input_file new) = snd (parse_input_file ?L)"
    "\<forall>name v lno pos. map_of (rev (zip [''b''] [7])) name = Some v
        \<longrightarrow> snd (parse_input_file ?L) name = Some (lno, pos)
        \<longrightarrow> line_values (new ! lno) ! pos = str_int v"
    by blast
  from n(3) m e have "line_values (new ! 0) ! 1 = str_int 7" by blast
  with n(1) n(2) e str_int_token_ok [of 7] show ?thesis by blast
qed

text \<open>
  C8. The rewrite keeps only the text between the first and the second marker: on a line
  with two markers everything from the second marker on is dropped, the line's newline
  included, so the trailing comment is not reattached verbatim. Here the template line
  \<^verbatim>\<open>1 2 ! a, b ! note\n\<close> becomes \<^verbatim>\<open>5 2 ! a, b \<close>, where reattaching the comment verbatim
  would give \<^verbatim>\<open>5 2 ! a, b ! note\n\<close>.
\<close>

theorem modify_input_drops_second_marker:
  "modify_input str_int [''1 2 ! a, b ! note'' @ [CHR 0x0A], ''next line'']
      (snd (parse_input_file [''1 2 ! a, b ! note'' @ [CHR 0x0A], ''next line''])) [5] [''a'']
    = Inr [''5 2 ! a, b '', ''next line'']"
  by code_simp

section \<open>Python numbers\<close>

text \<open>
  A scanned value is a Python \<^verbatim>\<open>int\<close> (unbounded) or a \<^verbatim>\<open>float\<close>. A float is an IEEE binary64
  value: a finite one is given by the rational it denotes, besides the two infinities and
  NaN (the sign of zero is not kept: comparison and addition do not see it). Arithmetic on
  floats rounds the exact result to the nearest binary64 value, ties to even.
\<close>

datatype pyfloat = Fin rat | PInf | NInf | NaN

datatype pynum = PInt int | PFloat pyfloat

definition pow2 :: "int \<Rightarrow> rat" where
  "pow2 k = (if 0 \<le> k then 2 ^ nat k else 1 / 2 ^ nat (- k))"

text \<open>The binary exponent \<open>e\<close> of a nonzero rational: \<open>2^e \<le> |x| < 2^(e+1)\<close>.\<close>

definition ilog2 :: "rat \<Rightarrow> int" where
  "ilog2 x =
     (let d = int (floorlog 2 (nat (fst (quotient_of \<bar>x\<bar>))))
            - int (floorlog 2 (nat (snd (quotient_of \<bar>x\<bar>))))
      in if pow2 d \<le> \<bar>x\<bar> then d else d - 1)"

definition round_half_even :: "rat \<Rightarrow> int" where
  "round_half_even y =
     (let n = \<lfloor>y\<rfloor>; r = y - of_int n
      in if r < 1 / 2 then n else if 1 / 2 < r then n + 1 else if even n then n else n + 1)"

text \<open>
  Rounding to binary64: 53 significant bits, the spacing never below \<open>2^-1074\<close>, and an
  infinity once the rounded magnitude reaches \<open>2^1024\<close>.
\<close>

definition round_double :: "rat \<Rightarrow> pyfloat" where
  "round_double x =
     (if x = 0 then Fin 0
      else let u = pow2 (max (ilog2 x - 52) (- 1074));
               r = of_int (round_half_even (x / u)) * u
           in if pow2 1024 \<le> \<bar>r\<bar> then (if 0 < r then PInf else NInf) else Fin r)"

fun float_add :: "pyfloat \<Rightarrow> pyfloat \<Rightarrow> pyfloat" where
  "float_add (Fin a) (Fin b) = round_double (a + b)"
| "float_add NaN _ = NaN"
| "float_add _ NaN = NaN"
| "float_add PInf NInf = NaN"
| "float_add NInf PInf = NaN"
| "float_add PInf _ = PInf"
| "float_add _ PInf = PInf"
| "float_add NInf _ = NInf"
| "float_add _ NInf = NInf"

fun float_le :: "pyfloat \<Rightarrow> pyfloat \<Rightarrow> bool" where
  "float_le (Fin a) (Fin b) = (a \<le> b)"
| "float_le NaN _ = False"
| "float_le _ NaN = False"
| "float_le NInf _ = True"
| "float_le _ PInf = True"
| "float_le PInf _ = False"
| "float_le _ NInf = False"

text \<open>\<^verbatim>\<open>float(i)\<close> for an int: OverflowError when the int is too large.\<close>

definition float_of_int :: "int \<Rightarrow> error + pyfloat" where
  "float_of_int i = (case round_double (of_int i) of Fin r \<Rightarrow> Inr (Fin r) | _ \<Rightarrow> Inl OverflowError)"

text \<open>
  \<^verbatim>\<open>a + b\<close>: exact on two ints; an int meeting a float is converted first. \<^verbatim>\<open>a <= b\<close>: an int
  and a float are compared by their exact values.
\<close>

fun num_add :: "pynum \<Rightarrow> pynum \<Rightarrow> error + pynum" where
  "num_add (PInt a) (PInt b) = Inr (PInt (a + b))"
| "num_add (PInt a) (PFloat g) =
     (case float_of_int a of Inl e \<Rightarrow> Inl e | Inr f \<Rightarrow> Inr (PFloat (float_add f g)))"
| "num_add (PFloat f) (PInt b) =
     (case float_of_int b of Inl e \<Rightarrow> Inl e | Inr g \<Rightarrow> Inr (PFloat (float_add f g)))"
| "num_add (PFloat f) (PFloat g) = Inr (PFloat (float_add f g))"

fun num_le :: "pynum \<Rightarrow> pynum \<Rightarrow> bool" where
  "num_le (PInt a) (PInt b) = (a \<le> b)"
| "num_le (PInt a) (PFloat g) = float_le (Fin (of_int a)) g"
| "num_le (PFloat f) (PInt b) = float_le f (Fin (of_int b))"
| "num_le (PFloat f) (PFloat g) = float_le f g"

text \<open>
  \<^verbatim>\<open>round(v, 12)\<close>: an int is returned as it is; a finite float is rounded to 12 decimals
  (ties to even, on its exact value) and the decimal result converted back to binary64; an
  infinity or NaN rounds to itself.
\<close>

fun float_round12 :: "pyfloat \<Rightarrow> pyfloat" where
  "float_round12 (Fin x) = round_double (of_int (round_half_even (x * 10 ^ 12)) / 10 ^ 12)"
| "float_round12 f = f"

fun num_round12 :: "pynum \<Rightarrow> pynum" where
  "num_round12 (PInt i) = PInt i"
| "num_round12 (PFloat f) = PFloat (float_round12 f)"

text \<open>The literal \<^verbatim>\<open>1e-12\<close>.\<close>

definition tol :: pyfloat where
  "tol = round_double (1 / 10 ^ 12)"

section \<open>The range expander\<close>

text \<open>
  The loop of the floating-point branch. It may run forever: not returning is \<open>None\<close>.
  \<^verbatim>\<open>v = start; while v <= end + 1e-12: vals.append(round(v, 12)); v += step\<close>
\<close>

partial_function (option) float_loop ::
  "pynum \<Rightarrow> pynum \<Rightarrow> pynum \<Rightarrow> pynum list \<Rightarrow> (error + pynum list) option"
where
  "float_loop v end step vals =
     (case num_add end (PFloat tol) of
        Inl e \<Rightarrow> Some (Inl e)
      | Inr bound \<Rightarrow>
          if num_le v bound
          then (case num_add v step of
                  Inl e \<Rightarrow> Some (Inl e)
                | Inr v' \<Rightarrow> float_loop v' end step (vals @ [num_round12 v]))
          else Some (Inr vals))"

type_synonym scan_spec = "string \<times> pynum \<times> pynum \<times> pynum"

text \<open>
  The values of one spec: \<^verbatim>\<open>range\<close> when start, end and step are all ints, the loop
  otherwise.
\<close>

fun expand_spec :: "scan_spec \<Rightarrow> (error + pynum list) option" where
  "expand_spec (name, PInt start, PInt end, PInt step) =
     Some (case int_values start end step of Inl e \<Rightarrow> Inl e | Inr vals \<Rightarrow> Inr (map PInt vals))"
| "expand_spec (name, start, end, step) = float_loop start end step []"

text \<open>\<^verbatim>\<open>itertools.product(*lists)\<close>: the first list varies slowest.\<close>

fun itertools_product :: "'a list list \<Rightarrow> 'a list list" where
  "itertools_product [] = [[]]"
| "itertools_product (xs # xss) =
     concat (map (\<lambda>x. map ((#) x) (itertools_product xss)) xs)"

text \<open>The loop over the specs: the first spec that raises or diverges decides.\<close>

fun expand_all :: "scan_spec list \<Rightarrow> (error + pynum list list) option" where
  "expand_all [] = Some (Inr [])"
| "expand_all (s # ss) =
     (case expand_spec s of
        None \<Rightarrow> None
      | Some (Inl e) \<Rightarrow> Some (Inl e)
      | Some (Inr vals) \<Rightarrow>
          (case expand_all ss of
             None \<Rightarrow> None
           | Some (Inl e) \<Rightarrow> Some (Inl e)
           | Some (Inr value_lists) \<Rightarrow> Some (Inr (vals # value_lists))))"

definition generate_param_combinations ::
  "scan_spec list \<Rightarrow> (error + string list \<times> pynum list list) option"
where
  "generate_param_combinations scan_specs =
     (case expand_all scan_specs of
        None \<Rightarrow> None
      | Some (Inl e) \<Rightarrow> Some (Inl e)
      | Some (Inr value_lists) \<Rightarrow> Some (Inr (map fst scan_specs, itertools_product value_lists)))"

section \<open>The symmetry filter\<close>

text \<open>
  From \<^verbatim>\<open>main\<close>: when both names are scanned,
  \<^verbatim>\<open>combos = [c for c in combos if c[i1] <= c[i2]]\<close> with \<^verbatim>\<open>i1 = param_names.index('asub1')\<close>,
  \<^verbatim>\<open>i2 = param_names.index('asub2')\<close>. \<^verbatim>\<open>list.index\<close> is only called on a name that is in
  the list; a combination too short for an index raises IndexError.
\<close>

fun index_of :: "'a list \<Rightarrow> 'a \<Rightarrow> nat" where
  "index_of [] x = 0"
| "index_of (y # ys) x = (if x = y then 0 else Suc (index_of ys x))"

definition symmetry_filter :: "string list \<Rightarrow> pynum list list \<Rightarrow> error + pynum list list" where
  "symmetry_filter param_names combos =
     (if ''asub1'' \<in> set param_names \<and> ''asub2'' \<in> set param_names
      then (let i1 = index_of param_names ''asub1'';
                i2 = index_of param_names ''asub2''
            in if list_all (\<lambda>c. i1 < length c \<and> i2 < length c) combos
               then Inr (filter (\<lambda>c. num_le (c ! i1) (c ! i2)) combos)
               else Inl IndexError)
      else Inr combos)"

subsection \<open>Facts about the product\<close>

lemma length_blocks:
  "length (concat (map (\<lambda>x. map (f x) ps) xs)) = length xs * length ps"
  by (induction xs) simp_all

lemma nth_blocks:
  "i < length xs \<Longrightarrow> j < length ps \<Longrightarrow>
   concat (map (\<lambda>x. map (f x) ps) xs) ! (i * length ps + j) = f (xs ! i) (ps ! j)"
proof (induction xs arbitrary: i)
  case Nil
  then show ?case by simp
next
  case (Cons x xs)
  show ?case
  proof (cases i)
    case 0
    with Cons.prems show ?thesis by (simp add: nth_append)
  next
    case (Suc i')
    with Cons.prems have "i' < length xs" by simp
    from Cons.IH [OF this Cons.prems(2)] Suc show ?thesis
      by (simp add: nth_append)
  qed
qed

lemma length_itertools_product:
  "length (itertools_product xss) = prod_list (map length xss)"
  by (induction xss) (simp_all add: length_blocks)

lemma itertools_product_block:
  "i < length xs \<Longrightarrow> j < length (itertools_product xss) \<Longrightarrow>
   itertools_product (xs # xss) ! (i * length (itertools_product xss) + j)
     = xs ! i # itertools_product xss ! j"
  by (simp add: nth_blocks)

lemma itertools_product_two:
  "i < length xs \<Longrightarrow> j < length ys \<Longrightarrow>
   itertools_product [xs, ys] ! (i * length ys + j) = [xs ! i, ys ! j]"
  using itertools_product_block [of i xs j "[ys]"] by (simp add: length_blocks nth_blocks)

lemma expand_all_lists:
  "expand_all specs = Some (Inr ls) \<Longrightarrow>
   length ls = length specs \<and> (\<forall>k < length specs. expand_spec (specs ! k) = Some (Inr (ls ! k)))"
proof (induction specs arbitrary: ls)
  case Nil
  then show ?case by simp
next
  case (Cons s ss)
  from Cons.prems obtain vals rest where v: "expand_spec s = Some (Inr vals)"
    and r: "expand_all ss = Some (Inr rest)" and ls: "ls = vals # rest"
    by (auto split: option.splits sum.splits)
  from Cons.IH [OF r] have len: "length rest = length ss"
    and each: "\<And>k. k < length ss \<Longrightarrow> expand_spec (ss ! k) = Some (Inr (rest ! k))"
    by simp_all
  have "expand_spec ((s # ss) ! k) = Some (Inr (ls ! k))" if "k < length (s # ss)" for k
    using that v each ls by (cases k) simp_all
  with len ls show ?case by simp
qed

lemma index_of_less: "x \<in> set xs \<Longrightarrow> index_of xs x < length xs"
  by (induction xs) auto

text \<open>
  C5. When the generator returns, its names are the specs' names in order and its
  combinations are the product of the specs' value lists: as many as the product of the
  lists' lengths, in blocks by the first list (the combination at \<open>i * n + j\<close> is the
  \<open>i\<close>-th value of the first list before the \<open>j\<close>-th combination of the rest), so the last
  spec varies fastest; two lists of lengths \<open>m\<close> and \<open>n\<close> give \<open>m * n\<close> combinations.
\<close>

theorem generate_param_combinations_product:
  assumes "generate_param_combinations specs = Some (Inr (names, combos))"
  shows "\<exists>value_lists.
      names = map fst specs
      \<and> length value_lists = length specs
      \<and> (\<forall>k < length specs. expand_spec (specs ! k) = Some (Inr (value_lists ! k)))
      \<and> combos = itertools_product value_lists
      \<and> length combos = prod_list (map length value_lists)
      \<and> (\<forall>vals rest i j. value_lists = vals # rest \<longrightarrow> i < length vals
            \<longrightarrow> j < length (itertools_product rest)
            \<longrightarrow> combos ! (i * length (itertools_product rest) + j)
                  = vals ! i # itertools_product rest ! j)
      \<and> (\<forall>xs ys i j. value_lists = [xs, ys] \<longrightarrow> i < length xs \<longrightarrow> j < length ys
            \<longrightarrow> length combos = length xs * length ys
                \<and> combos ! (i * length ys + j) = [xs ! i, ys ! j])"
proof -
  from assms obtain ls where ls: "expand_all specs = Some (Inr ls)"
    and n: "names = map fst specs" and c: "combos = itertools_product ls"
    by (auto simp: generate_param_combinations_def split: option.splits sum.splits)
  from expand_all_lists [OF ls] have len: "length ls = length specs"
    and each: "\<forall>k < length specs. expand_spec (specs ! k) = Some (Inr (ls ! k))"
    by simp_all
  have size: "length combos = prod_list (map length ls)"
    by (simp add: c length_itertools_product)
  have block: "combos ! (i * length (itertools_product rest) + j)
      = vals ! i # itertools_product rest ! j"
    if "ls = vals # rest" "i < length vals" "j < length (itertools_product rest)"
    for vals rest i j
    using that itertools_product_block [of i vals j rest] by (simp add: c)
  have two: "length combos = length xs * length ys
      \<and> combos ! (i * length ys + j) = [xs ! i, ys ! j]"
    if "ls = [xs, ys]" "i < length xs" "j < length ys" for xs ys i j
    using that itertools_product_two [of i xs j ys] size by (simp add: c)
  show ?thesis
  proof (intro exI [of _ ls] conjI allI impI)
    show "names = map fst specs" by (rule n)
    show "length ls = length specs" by (rule len)
    show "combos = itertools_product ls" by (rule c)
    show "length combos = prod_list (map length ls)" by (rule size)
  next
    fix k assume "k < length specs"
    with each show "expand_spec (specs ! k) = Some (Inr (ls ! k))" by simp
  next
    fix vals rest i j
    assume "ls = vals # rest" "i < length vals" "j < length (itertools_product rest)"
    then show "combos ! (i * length (itertools_product rest) + j)
      = vals ! i # itertools_product rest ! j" by (rule block)
  next
    fix xs ys i j
    assume a: "ls = [xs, ys]" "i < length xs" "j < length ys"
    from two [OF a] show "length combos = length xs * length ys" by simp
    from two [OF a] show "combos ! (i * length ys + j) = [xs ! i, ys ! j]" by simp
  qed
qed

lemma generate_example:
  "generate_param_combinations
     [(''a'', PInt 1, PInt 3, PInt 1), (''b'', PInt 10, PInt 12, PInt 2)]
   = Some (Inr ([''a'', ''b''],
       [[PInt 1, PInt 10], [PInt 1, PInt 12], [PInt 2, PInt 10], [PInt 2, PInt 12],
        [PInt 3, PInt 10], [PInt 3, PInt 12]]))"
  by (simp add: generate_param_combinations_def int_values_def py_range_def range_up.simps)

theorem generate_param_combinations_product_witness:
  "generate_param_combinations
     [(''a'', PInt 1, PInt 3, PInt 1), (''b'', PInt 10, PInt 12, PInt 2)]
   = Some (Inr ([''a'', ''b''],
       [[PInt 1, PInt 10], [PInt 1, PInt 12], [PInt 2, PInt 10], [PInt 2, PInt 12],
        [PInt 3, PInt 10], [PInt 3, PInt 12]]))
   \<and> (\<exists>value_lists. length value_lists = 2
        \<and> [[PInt 1, PInt 10], [PInt 1, PInt 12], [PInt 2, PInt 10], [PInt 2, PInt 12],
            [PInt 3, PInt 10], [PInt 3, PInt 12]] = itertools_product value_lists
        \<and> (6 :: nat) = prod_list (map length value_lists))"
proof -
  let ?C = "[[PInt 1, PInt 10], [PInt 1, PInt 12], [PInt 2, PInt 10], [PInt 2, PInt 12],
        [PInt 3, PInt 10], [PInt 3, PInt 12]]"
  from generate_param_combinations_product [OF generate_example]
  obtain vl where v:
    "length vl = length [(''a'', PInt 1, PInt 3, PInt 1), (''b'', PInt 10, PInt 12, PInt 2)]"
    "?C = itertools_product vl"
    "length ?C = prod_list (map length vl)"
    by blast
  have "length vl = 2" using v(1) by simp
  moreover have "(6 :: nat) = prod_list (map length vl)" using v(3) by simp
  ultimately show ?thesis using v(2) generate_example by blast
qed

text \<open>
  C6. With both \<^verbatim>\<open>asub1\<close> and \<^verbatim>\<open>asub2\<close> among the names (and combinations as long as the name
  list, as the product makes them) the filter keeps, in order, exactly the combinations
  whose \<^verbatim>\<open>asub1\<close> value is at most their \<^verbatim>\<open>asub2\<close> value; with either name missing it returns
  the list unchanged; and over \<open>{1,2} \<times> {1,2}\<close> it keeps (1,1), (1,2), (2,2) and drops (2,1).
\<close>

theorem symmetry_filter_rule:
  "(''asub1'' \<in> set param_names \<and> ''asub2'' \<in> set param_names
      \<and> list_all (\<lambda>c. length c = length param_names) combos
    \<longrightarrow> symmetry_filter param_names combos
        = Inr (filter (\<lambda>c. num_le (c ! index_of param_names ''asub1'')
                                (c ! index_of param_names ''asub2'')) combos))
   \<and> (''asub1'' \<notin> set param_names \<or> ''asub2'' \<notin> set param_names
    \<longrightarrow> symmetry_filter param_names combos = Inr combos)
   \<and> symmetry_filter [''asub1'', ''asub2'']
        (itertools_product [[PInt 1, PInt 2], [PInt 1, PInt 2]])
      = Inr [[PInt 1, PInt 1], [PInt 1, PInt 2], [PInt 2, PInt 2]]"
proof (intro conjI impI)
  assume a: "''asub1'' \<in> set param_names \<and> ''asub2'' \<in> set param_names
      \<and> list_all (\<lambda>c. length c = length param_names) combos"
  then have "index_of param_names ''asub1'' < length param_names"
    "index_of param_names ''asub2'' < length param_names"
    by (simp_all add: index_of_less)
  with a have "list_all (\<lambda>c. index_of param_names ''asub1'' < length c
      \<and> index_of param_names ''asub2'' < length c) combos"
    by (simp add: list_all_iff)
  with a show "symmetry_filter param_names combos
        = Inr (filter (\<lambda>c. num_le (c ! index_of param_names ''asub1'')
                                (c ! index_of param_names ''asub2'')) combos)"
    by (simp add: symmetry_filter_def Let_def)
next
  assume "''asub1'' \<notin> set param_names \<or> ''asub2'' \<notin> set param_names"
  then show "symmetry_filter param_names combos = Inr combos"
    by (auto simp: symmetry_filter_def)
next
  show "symmetry_filter [''asub1'', ''asub2'']
        (itertools_product [[PInt 1, PInt 2], [PInt 1, PInt 2]])
      = Inr [[PInt 1, PInt 1], [PInt 1, PInt 2], [PInt 2, PInt 2]]"
    by (simp add: symmetry_filter_def Let_def)
qed

theorem symmetry_filter_rule_witness:
  "symmetry_filter [''x'', ''asub2'', ''asub1'']
      [[PInt 0, PInt 1, PInt 2], [PInt 0, PInt 2, PInt 1], [PInt 0, PInt 3, PInt 3]]
    = Inr [[PInt 0, PInt 2, PInt 1], [PInt 0, PInt 3, PInt 3]]
   \<and> symmetry_filter [''asub1'', ''y''] [[PInt 2, PInt 1]] = Inr [[PInt 2, PInt 1]]
   \<and> symmetry_filter [''asub1'', ''asub2'']
        (itertools_product [[PInt 1, PInt 2], [PInt 1, PInt 2]])
      = Inr [[PInt 1, PInt 1], [PInt 1, PInt 2], [PInt 2, PInt 2]]"
  using symmetry_filter_rule [of "[''x'', ''asub2'', ''asub1'']"
      "[[PInt 0, PInt 1, PInt 2], [PInt 0, PInt 2, PInt 1], [PInt 0, PInt 3, PInt 3]]"]
    symmetry_filter_rule [of "[''asub1'', ''y'']" "[[PInt 2, PInt 1]]"]
  by simp

subsection \<open>Classes under the swap\<close>

text \<open>
  Swapping the values at two indices of a combination, and the retained combinations that
  represent the class of a combination under that swap.
\<close>

definition swap_values :: "nat \<Rightarrow> nat \<Rightarrow> 'a list \<Rightarrow> 'a list" where
  "swap_values i j c = c[i := c ! j, j := c ! i]"

definition swap_equiv :: "nat \<Rightarrow> nat \<Rightarrow> 'a list \<Rightarrow> 'a list \<Rightarrow> bool" where
  "swap_equiv i j c d \<longleftrightarrow> d = c \<or> d = swap_values i j c"

definition class_reps :: "nat \<Rightarrow> nat \<Rightarrow> 'a list list \<Rightarrow> 'a list \<Rightarrow> 'a list list" where
  "class_reps i j kept c = filter (swap_equiv i j c) kept"

lemma set_blocks:
  "set (concat (map (\<lambda>x. map ((#) x) ps) xs)) = {x # p | x p. x \<in> set xs \<and> p \<in> set ps}"
  by (induction xs) auto

lemma in_itertools_product:
  "c \<in> set (itertools_product xss)
     \<longleftrightarrow> length c = length xss \<and> (\<forall>k < length xss. c ! k \<in> set (xss ! k))"
proof (induction xss arbitrary: c)
  case Nil
  then show ?case by simp
next
  case (Cons xs xss)
  show ?case
  proof
    assume "c \<in> set (itertools_product (xs # xss))"
    then obtain x p where c: "c = x # p" "x \<in> set xs" "p \<in> set (itertools_product xss)"
      by (auto simp: set_blocks)
    from c(3) Cons.IH [of p] have p: "length p = length xss"
      "\<And>k. k < length xss \<Longrightarrow> p ! k \<in> set (xss ! k)" by simp_all
    have "c ! k \<in> set ((xs # xss) ! k)" if "k < length (xs # xss)" for k
      using that c p by (cases k) simp_all
    with c p show "length c = length (xs # xss) \<and> (\<forall>k < length (xs # xss). c ! k \<in> set ((xs # xss) ! k))"
      by simp
  next
    assume a: "length c = length (xs # xss) \<and> (\<forall>k < length (xs # xss). c ! k \<in> set ((xs # xss) ! k))"
    then obtain x p where c: "c = x # p" by (cases c) auto
    from a c have "x \<in> set xs" by auto
    moreover have "p \<in> set (itertools_product xss)"
    proof -
      have "length p = length xss" using a c by simp
      moreover have "p ! k \<in> set (xss ! k)" if "k < length xss" for k
      proof -
        from that have "Suc k < length (xs # xss)" by simp
        with a have "c ! Suc k \<in> set ((xs # xss) ! Suc k)" by blast
        then show ?thesis by (simp add: c)
      qed
      ultimately show ?thesis using Cons.IH [of p] by simp
    qed
    ultimately show "c \<in> set (itertools_product (xs # xss))"
      by (auto simp: set_blocks c)
  qed
qed

lemma distinct_blocks:
  "distinct xs \<Longrightarrow> distinct ps \<Longrightarrow> distinct (concat (map (\<lambda>x. map ((#) x) ps) xs))"
proof (induction xs)
  case Nil
  then show ?case by simp
next
  case (Cons x xs)
  have "distinct (map ((#) x) ps)" using Cons.prems(2) by (simp add: distinct_map)
  moreover have "distinct (concat (map (\<lambda>x. map ((#) x) ps) xs))"
    using Cons by simp
  moreover have "set (map ((#) x) ps) \<inter> set (concat (map (\<lambda>x. map ((#) x) ps) xs)) = {}"
    using Cons.prems(1) by (auto simp: set_blocks)
  ultimately show ?case by simp
qed

lemma distinct_itertools_product:
  "\<forall>l \<in> set xss. distinct l \<Longrightarrow> distinct (itertools_product xss)"
  by (induction xss) (simp_all add: distinct_blocks)

lemma index_of_nth: "x \<in> set xs \<Longrightarrow> xs ! index_of xs x = x"
  by (induction xs) auto

text \<open>
  C3, as the claim states it, fails: with \<^verbatim>\<open>asub1\<close> scanned over \<open>[3]\<close> and \<^verbatim>\<open>asub2\<close> over
  \<open>[1, 2]\<close> the filter keeps nothing, so the classes of (3,1) and (3,2) have no retained
  combination.
\<close>

theorem symmetry_filter_class_counterexample:
  "\<not> (\<forall>c \<in> set (itertools_product [[PInt 3], [PInt 1, PInt 2]]).
        \<forall>kept. symmetry_filter [''asub1'', ''asub2'']
                 (itertools_product [[PInt 3], [PInt 1, PInt 2]]) = Inr kept
          \<longrightarrow> length (class_reps 0 1 kept c) = 1)"
  by (auto simp: symmetry_filter_def Let_def class_reps_def)

text \<open>
  C3, amended. Let the combinations be the product of value lists without repeated values,
  let \<^verbatim>\<open>asub1\<close> and \<^verbatim>\<open>asub2\<close> be scanned over the same set of values, and let \<^verbatim>\<open><=\<close> order
  these values linearly (any two comparable, and equal when each is at most the other, as
  for ints or for finite floats). Then every combination's class under the swap has
  exactly one retained combination.
\<close>

theorem symmetry_filter_class_once:
  assumes n1: "''asub1'' \<in> set param_names" and n2: "''asub2'' \<in> set param_names"
    and len: "length value_lists = length param_names"
    and prod: "combos = itertools_product value_lists"
    and dist: "\<forall>l \<in> set value_lists. distinct l"
    and same: "set (value_lists ! index_of param_names ''asub1'')
             = set (value_lists ! index_of param_names ''asub2'')"
    and lin: "\<forall>a \<in> set (value_lists ! index_of param_names ''asub1'').
              \<forall>b \<in> set (value_lists ! index_of param_names ''asub1'').
                (num_le a b \<or> num_le b a) \<and> (num_le a b \<and> num_le b a \<longrightarrow> a = b)"
  shows "\<exists>kept. symmetry_filter param_names combos = Inr kept
      \<and> (\<forall>c \<in> set combos.
            length (class_reps (index_of param_names ''asub1'')
                      (index_of param_names ''asub2'') kept c) = 1)"
proof -
  define i1 where "i1 = index_of param_names ''asub1''"
  define i2 where "i2 = index_of param_names ''asub2''"
  define P where "P = (\<lambda>c :: pynum list. num_le (c ! i1) (c ! i2))"
  have i1: "i1 < length value_lists" and i2: "i2 < length value_lists"
    using n1 n2 len by (simp_all add: i1_def i2_def index_of_less)
  have "param_names ! i1 = ''asub1''" "param_names ! i2 = ''asub2''"
    using n1 n2 by (simp_all add: i1_def i2_def index_of_nth)
  then have ne: "i1 \<noteq> i2" by auto
  have lens: "length c = length value_lists" if "c \<in> set combos" for c
    using that by (simp add: prod in_itertools_product)
  have "list_all (\<lambda>c. i1 < length c \<and> i2 < length c) combos"
    using lens i1 i2 by (simp add: list_all_iff)
  then have kept: "symmetry_filter param_names combos = Inr (filter P combos)"
    using n1 n2 by (simp add: symmetry_filter_def Let_def i1_def i2_def P_def)
  have dc: "distinct combos" using dist by (simp add: prod distinct_itertools_product)
  have one: "length (class_reps i1 i2 (filter P combos) c) = 1" if c: "c \<in> set combos" for c
  proof -
    define a where "a = c ! i1"
    define b where "b = c ! i2"
    define s where "s = swap_values i1 i2 c"
    have lc: "length c = length value_lists" using c by (rule lens)
    have comp: "c ! k \<in> set (value_lists ! k)" if "k < length value_lists" for k
      using c that by (simp add: prod in_itertools_product)
    have a: "a \<in> set (value_lists ! i1)" using comp [OF i1] by (simp add: a_def)
    have b: "b \<in> set (value_lists ! i1)"
      using comp [OF i2] same by (simp add: b_def i1_def i2_def)
    have s1: "s ! i1 = b" and s2: "s ! i2 = a"
      using i1 i2 ne lc by (simp_all add: s_def swap_values_def a_def b_def)
    have sk: "s ! k = c ! k" if "k \<noteq> i1" "k \<noteq> i2" for k
      using that by (simp add: s_def swap_values_def)
    have "s ! k \<in> set (value_lists ! k)" if k: "k < length value_lists" for k
    proof (cases "k = i1")
      case True
      then show ?thesis using s1 b by simp
    next
      case False
      show ?thesis
      proof (cases "k = i2")
        case True
        then show ?thesis using s2 a same by (simp add: i1_def i2_def)
      next
        case False
        with \<open>k \<noteq> i1\<close> show ?thesis using sk comp [OF k] by simp
      qed
    qed
    moreover have "length s = length value_lists" using lc by (simp add: s_def swap_values_def)
    ultimately have s_in: "s \<in> set combos" by (simp add: prod in_itertools_product)
    have Pc: "P c \<longleftrightarrow> num_le a b" by (simp add: P_def a_def b_def)
    have Ps: "P s \<longleftrightarrow> num_le b a" by (simp add: P_def s1 s2)
    have same_if: "s = c" if "a = b"
    proof -
      have "s = c[i1 := c ! i1, i2 := c ! i2]"
        using that by (simp add: s_def swap_values_def a_def b_def)
      then show ?thesis by simp
    qed
    from lin a b have total: "num_le a b \<or> num_le b a"
      and anti: "num_le a b \<Longrightarrow> num_le b a \<Longrightarrow> a = b"
      by (auto simp: i1_def)
    have "class_reps i1 i2 (filter P combos) c
        = filter (\<lambda>d. P d \<and> swap_equiv i1 i2 c d) combos"
      by (simp add: class_reps_def conj_commute)
    then have "length (class_reps i1 i2 (filter P combos) c)
        = card ({d. P d \<and> swap_equiv i1 i2 c d} \<inter> set combos)"
      using dc by (simp add: distinct_length_filter)
    also have "{d. P d \<and> swap_equiv i1 i2 c d} \<inter> set combos = {if P c then c else s}"
    proof (cases "P c")
      case True
      have "d = c" if "P d" "swap_equiv i1 i2 c d" for d
      proof -
        from that(2) have "d = c \<or> d = s" by (simp add: swap_equiv_def s_def)
        then show ?thesis
        proof
          assume "d = s"
          with that(1) Ps have "num_le b a" by simp
          with True Pc anti have "a = b" by simp
          with same_if \<open>d = s\<close> show ?thesis by simp
        qed simp
      qed
      then show ?thesis using True c by (auto simp: swap_equiv_def)
    next
      case False
      with Pc total have "num_le b a" by simp
      with Ps have "P s" by simp
      moreover have "d = s" if "P d" "swap_equiv i1 i2 c d" for d
        using that False by (auto simp: swap_equiv_def s_def)
      ultimately show ?thesis using False s_in by (auto simp: swap_equiv_def s_def)
    qed
    finally show ?thesis by simp
  qed
  from kept one show ?thesis unfolding i1_def i2_def by blast
qed

theorem symmetry_filter_class_once_witness:
  "symmetry_filter [''asub1'', ''asub2''] (itertools_product [[PInt 1, PInt 2], [PInt 2, PInt 1]])
     = Inr [[PInt 1, PInt 2], [PInt 1, PInt 1], [PInt 2, PInt 2]]
   \<and> length (class_reps 0 1 [[PInt 1, PInt 2], [PInt 1, PInt 1], [PInt 2, PInt 2]]
        [PInt 2, PInt 1]) = 1"
proof -
  let ?vl = "[[PInt 1, PInt 2], [PInt 2, PInt 1]]"
  let ?n = "[''asub1'', ''asub2'']"
  have e: "symmetry_filter ?n (itertools_product ?vl)
     = Inr [[PInt 1, PInt 2], [PInt 1, PInt 1], [PInt 2, PInt 2]]"
    by (simp add: symmetry_filter_def Let_def)
  have h: "''asub1'' \<in> set ?n" "''asub2'' \<in> set ?n" "length ?vl = length ?n"
    "\<forall>l \<in> set ?vl. distinct l"
    "set (?vl ! index_of ?n ''asub1'') = set (?vl ! index_of ?n ''asub2'')"
    "\<forall>a \<in> set (?vl ! index_of ?n ''asub1''). \<forall>b \<in> set (?vl ! index_of ?n ''asub1'').
        (num_le a b \<or> num_le b a) \<and> (num_le a b \<and> num_le b a \<longrightarrow> a = b)"
    by auto
  from symmetry_filter_class_once [OF h(1) h(2) h(3) refl h(4) h(5) h(6)] e
  have "\<forall>c \<in> set (itertools_product ?vl).
      length (class_reps (index_of ?n ''asub1'') (index_of ?n ''asub2'')
        [[PInt 1, PInt 2], [PInt 1, PInt 1], [PInt 2, PInt 2]] c) = 1"
    by simp
  moreover have "[PInt 2, PInt 1] \<in> set (itertools_product ?vl)" by simp
  ultimately have "length (class_reps (index_of ?n ''asub1'') (index_of ?n ''asub2'')
        [[PInt 1, PInt 2], [PInt 1, PInt 1], [PInt 2, PInt 2]] [PInt 2, PInt 1]) = 1"
    by blast
  then have "length (class_reps 0 1 [[PInt 1, PInt 2], [PInt 1, PInt 1], [PInt 2, PInt 2]]
        [PInt 2, PInt 1]) = 1"
    by simp
  with e show ?thesis by simp
qed

section \<open>Materializing the tasks\<close>

text \<open>
  The part of \<^verbatim>\<open>main\<close> after the confirmation: the manifest \<^verbatim>\<open>tasks.csv\<close> is opened for
  writing (which empties it) and gets the header \<^verbatim>\<open>['id', 'folder'] + param_names\<close>; then,
  for \<^verbatim>\<open>idx, combo in enumerate(combos, 1)\<close>, the task folder is replaced by a copy of the
  template, the rewritten input file is written into it, the row
  \<^verbatim>\<open>[idx, folder_name] + list(combo)\<close> is written and the job is submitted if asked for.
  The file system is a map from task folders to the lines of their input file; whether
  removing and copying a folder fails is the parameter \<open>copy_fails\<close>, and an exception ends
  the run with the rows written so far. A row is the list of its cells' string forms.
\<close>

record world =
  csv :: "string list list"
  folders :: "string \<rightharpoonup> string list"
  submitted :: "string list"

definition folder_name :: "('v \<Rightarrow> string) \<Rightarrow> string list \<Rightarrow> nat \<Rightarrow> 'v list \<Rightarrow> string" where
  "folder_name str param_names idx combo =
     ''task_'' @ str_nat idx @ ''_''
       @ join ''_'' (map (\<lambda>(n, v). n @ ''_'' @ str v) (zip param_names combo))"

definition manifest_row :: "('v \<Rightarrow> string) \<Rightarrow> string list \<Rightarrow> nat \<Rightarrow> 'v list \<Rightarrow> string list" where
  "manifest_row str param_names idx combo =
     [str_nat idx, folder_name str param_names idx combo] @ map str combo"

fun materialize_loop ::
  "('v \<Rightarrow> string) \<Rightarrow> (string \<Rightarrow> bool) \<Rightarrow> bool \<Rightarrow> string list \<Rightarrow> param_map \<Rightarrow> string list
     \<Rightarrow> nat \<Rightarrow> 'v list list \<Rightarrow> world \<Rightarrow> world \<times> error option"
where
  "materialize_loop str copy_fails submit lines pm param_names idx [] w = (w, None)"
| "materialize_loop str copy_fails submit lines pm param_names idx (combo # combos) w =
     (if copy_fails (folder_name str param_names idx combo) then (w, Some OSError)
      else (case modify_input str lines pm combo param_names of
              Inl e \<Rightarrow>
                (w\<lparr>folders := (folders w)(folder_name str param_names idx combo \<mapsto> lines)\<rparr>,
                 Some e)
            | Inr new_lines \<Rightarrow>
                materialize_loop str copy_fails submit lines pm param_names (Suc idx) combos
                  (w\<lparr>folders := (folders w)(folder_name str param_names idx combo \<mapsto> new_lines),
                     csv := csv w @ [manifest_row str param_names idx combo],
                     submitted := (if submit
                        then submitted w @ [folder_name str param_names idx combo]
                        else submitted w)\<rparr>)))"

definition materialize ::
  "('v \<Rightarrow> string) \<Rightarrow> (string \<Rightarrow> bool) \<Rightarrow> bool \<Rightarrow> string list \<Rightarrow> param_map \<Rightarrow> string list
     \<Rightarrow> 'v list list \<Rightarrow> world \<Rightarrow> world \<times> error option"
where
  "materialize str copy_fails submit lines pm param_names combos w =
     materialize_loop str copy_fails submit lines pm param_names 1 combos
       (w\<lparr>csv := [[''id'', ''folder''] @ param_names]\<rparr>)"

lemma materialize_loop_rows:
  "materialize_loop str copy_fails submit lines pm param_names idx combos w = (w', err) \<Longrightarrow>
   \<exists>k \<le> length combos.
     csv w' = csv w @ map (\<lambda>i. manifest_row str param_names (idx + i) (combos ! i)) [0..<k]
     \<and> (err = None \<longrightarrow> k = length combos)"
proof (induction combos arbitrary: idx w)
  case Nil
  then show ?case by simp
next
  case (Cons combo combos)
  let ?f = "folder_name str param_names idx combo"
  show ?case
  proof (cases "copy_fails ?f")
    case True
    with Cons.prems have "w' = w" "err = Some OSError" by simp_all
    then show ?thesis by (intro exI [of _ 0]) simp
  next
    case False
    show ?thesis
    proof (cases "modify_input str lines pm combo param_names")
      case (Inl e)
      with False Cons.prems have "csv w' = csv w" "err = Some e" by auto
      then show ?thesis by (intro exI [of _ 0]) simp
    next
      case (Inr new_lines)
      define w1 where "w1 = w\<lparr>folders := (folders w)(?f \<mapsto> new_lines),
                     csv := csv w @ [manifest_row str param_names idx combo],
                     submitted := (if submit then submitted w @ [?f] else submitted w)\<rparr>"
      from False Inr Cons.prems
      have "materialize_loop str copy_fails submit lines pm param_names (Suc idx) combos w1
          = (w', err)"
        by (simp add: w1_def)
      from Cons.IH [OF this] obtain k where k: "k \<le> length combos"
        "csv w' = csv w1 @ map (\<lambda>i. manifest_row str param_names (Suc idx + i) (combos ! i)) [0..<k]"
        "err = None \<longrightarrow> k = length combos"
        by blast
      have "csv w' = csv w
          @ map (\<lambda>i. manifest_row str param_names (idx + i) ((combo # combos) ! i)) [0..<Suc k]"
        unfolding map_upt_shift using k(2) by (simp add: w1_def)
      with k(1) k(3) show ?thesis by (intro exI [of _ "Suc k"]) simp
    qed
  qed
qed

text \<open>
  C4, as the claim states it, fails on the header: the second column is named
  \<^verbatim>\<open>folder\<close>, not \<^verbatim>\<open>directory\<close>.
\<close>

theorem manifest_header_counterexample:
  "hd (csv (fst (materialize str_int (\<lambda>f. False) False [''10 20 ! a, b'']
        (snd (parse_input_file [''10 20 ! a, b''])) [''a''] [[12]]
        \<lparr>csv = [], folders = Map.empty, submitted = []\<rparr>)))
   \<noteq> [''id'', ''directory'', ''a'']"
proof -
  obtain w' err where r: "materialize str_int (\<lambda>f. False) False [''10 20 ! a, b'']
        (snd (parse_input_file [''10 20 ! a, b''])) [''a''] [[12]]
        \<lparr>csv = [], folders = Map.empty, submitted = []\<rparr> = (w', err)"
    by (cases "materialize str_int (\<lambda>f. False) False [''10 20 ! a, b'']
        (snd (parse_input_file [''10 20 ! a, b''])) [''a''] [[12 :: int]]
        \<lparr>csv = [], folders = Map.empty, submitted = []\<rparr>")
  from materialize_loop_rows [OF r [unfolded materialize_def]]
  have "hd (csv w') = [''id'', ''folder'', ''a'']" by auto
  with r show ?thesis by simp
qed

text \<open>
  C4, amended. The manifest is created anew (whatever it held before is gone) with the
  header row \<^verbatim>\<open>id, folder, <scanned field names...>\<close>, followed by exactly one row per
  materialized task, in order: the task's 1-based number, its folder name and the
  combination's values in scan order. All combinations are materialized unless an
  exception ends the run.
\<close>

theorem materialize_manifest:
  assumes "materialize str copy_fails submit lines pm param_names combos w = (w', err)"
  shows "\<exists>k \<le> length combos.
      csv w' = ([''id'', ''folder''] @ param_names)
        # map (\<lambda>i. [str_nat (Suc i), folder_name str param_names (Suc i) (combos ! i)]
                    @ map str (combos ! i)) [0..<k]
      \<and> (err = None \<longrightarrow> k = length combos)"
  using materialize_loop_rows [OF assms [unfolded materialize_def]]
  by (simp add: manifest_row_def)

lemma materialize_example:
  "snd (materialize str_int (\<lambda>f. False) True [''10 20 ! a, b'']
        (snd (parse_input_file [''10 20 ! a, b''])) [''a'', ''b''] [[10, 20], [12, 20]]
        \<lparr>csv = [[''old'']], folders = Map.empty, submitted = []\<rparr>) = None"
  "csv (fst (materialize str_int (\<lambda>f. False) True [''10 20 ! a, b'']
        (snd (parse_input_file [''10 20 ! a, b''])) [''a'', ''b''] [[10, 20], [12, 20]]
        \<lparr>csv = [[''old'']], folders = Map.empty, submitted = []\<rparr>))
   = [[''id'', ''folder'', ''a'', ''b''],
      [''1'', ''task_1_a_10_b_20'', ''10'', ''20''],
      [''2'', ''task_2_a_12_b_20'', ''12'', ''20'']]"
  by code_simp+

theorem materialize_manifest_witness:
  "snd (materialize str_int (\<lambda>f. False) True [''10 20 ! a, b'']
        (snd (parse_input_file [''10 20 ! a, b''])) [''a'', ''b''] [[10, 20], [12, 20]]
        \<lparr>csv = [[''old'']], folders = Map.empty, submitted = []\<rparr>) = None
   \<and> (\<exists>k \<le> length [[10, 20], [12, 20 :: int]].
        csv (fst (materialize str_int (\<lambda>f. False) True [''10 20 ! a, b'']
          (snd (parse_input_file [''10 20 ! a, b''])) [''a'', ''b''] [[10, 20], [12, 20]]
          \<lparr>csv = [[''old'']], folders = Map.empty, submitted = []\<rparr>))
        = ([''id'', ''folder''] @ [''a'', ''b''])
          # map (\<lambda>i. [str_nat (Suc i),
                        folder_name str_int [''a'', ''b''] (Suc i) ([[10, 20], [12, 20]] ! i)]
                       @ map str_int ([[10, 20], [12, 20]] ! i)) [0..<k]
        \<and> k = length [[10, 20], [12, 20 :: int]])"
proof -
  let ?m = "materialize str_int (\<lambda>f. False) True [''10 20 ! a, b'']
        (snd (parse_input_file [''10 20 ! a, b''])) [''a'', ''b''] [[10, 20], [12, 20]]
        \<lparr>csv = [[''old'']], folders = Map.empty, submitted = []\<rparr>"
  have "?m = (fst ?m, snd ?m)" by simp
  from materialize_manifest [OF this] materialize_example(1)
  show ?thesis by blast
qed

section \<open>Floating-point ranges\<close>

subsection \<open>Evaluating the rounding\<close>

lemma pow2_powi: "pow2 k = 2 powi k"
  by (simp add: pow2_def power_int_def inverse_eq_divide power_one_over)

lemma pow2_pos [simp]: "0 < pow2 k"
  by (simp add: pow2_def)

lemma pow2_strict_mono: "a < b \<Longrightarrow> pow2 a < pow2 b"
  by (simp add: pow2_powi power_int_strict_increasing)

lemma pow2_less_cancel: "pow2 a < pow2 b \<Longrightarrow> a < b"
proof (rule ccontr)
  assume l: "pow2 a < pow2 b" and "\<not> a < b"
  then have "b = a \<or> b < a" by auto
  then show False
  proof
    assume "b = a" with l show False by simp
  next
    assume "b < a"
    from pow2_strict_mono [OF this] l show False by simp
  qed
qed

lemma round_half_even_near:
  "\<bar>y - of_int n\<bar> < 1 / 2 \<Longrightarrow> round_half_even y = n"
proof -
  assume a: "\<bar>y - of_int n\<bar> < 1 / 2"
  show ?thesis
  proof (cases "of_int n \<le> y")
    case True
    with a have "\<lfloor>y\<rfloor> = n" by (intro floor_unique) auto
    with a True show ?thesis by (simp add: round_half_even_def Let_def)
  next
    case False
    with a have f: "\<lfloor>y\<rfloor> = n - 1" by (intro floor_unique) auto
    from a False have "1 / 2 < y - of_int (n - 1)" by auto
    with f show ?thesis by (simp add: round_half_even_def Let_def)
  qed
qed

lemma round_half_even_tie:
  "y = of_int n + 1 / 2 \<Longrightarrow> round_half_even y = (if even n then n else n + 1)"
proof -
  assume a: "y = of_int n + 1 / 2"
  then have "\<lfloor>y\<rfloor> = n" by (intro floor_unique) auto
  with a show ?thesis by (simp add: round_half_even_def Let_def)
qed

lemma pow2_nat: "pow2 (int n) = 2 ^ n"
  by (simp add: pow2_def)

lemma pow2_diff: "pow2 (m - n) = pow2 m / pow2 n"
  by (simp add: pow2_powi power_int_diff)

lemma nat_bits_bounds:
  assumes "0 < a"
  shows "pow2 (int (floorlog 2 (nat a)) - 1) \<le> of_int a
       \<and> of_int a < pow2 (int (floorlog 2 (nat a)))"
proof -
  let ?l = "floorlog 2 (nat a)"
  from assms have na: "0 < nat a" by simp
  from floorlog_bounds [OF na, of 2] have b: "2 ^ (?l - 1) \<le> nat a" "nat a < 2 ^ ?l"
    by simp_all
  have "?l \<noteq> 0" using na floorlog_eq_zero_iff [of 2 "nat a"] by simp
  then have l1: "1 \<le> ?l" by simp
  then have e: "int ?l - 1 = int (?l - 1)" by simp
  have a: "(of_int a :: rat) = of_nat (nat a)" using assms by simp
  have "(of_nat (2 ^ (?l - 1)) :: rat) \<le> of_nat (nat a)" using b(1) by (rule of_nat_mono)
  moreover have "(of_nat (nat a) :: rat) < of_nat (2 ^ ?l)" using b(2) by (simp only: of_nat_less_iff)
  ultimately show ?thesis unfolding e pow2_nat a by simp
qed

lemma ilog2_unique:
  assumes lo: "pow2 e \<le> \<bar>x\<bar>" and hi: "\<bar>x\<bar> < pow2 (e + 1)"
  shows "ilog2 x = e"
proof -
  define X where "X = \<bar>x\<bar>"
  have Xpos: "0 < X" unfolding X_def using lo pow2_pos [of e] by linarith
  obtain a b where q: "quotient_of X = (a, b)" by (cases "quotient_of X")
  from quotient_of_denom_pos [OF q] have b: "0 < b" .
  from quotient_of_div [OF q] have X: "X = of_int a / of_int b" .
  have a: "0 < a"
  proof (rule ccontr)
    assume "\<not> 0 < a"
    then have "(of_int a :: rat) \<le> 0" by simp
    with b have "X \<le> 0" unfolding X by (simp add: divide_nonpos_pos)
    with Xpos show False by simp
  qed
  define la where "la = int (floorlog 2 (nat a))"
  define lb where "lb = int (floorlog 2 (nat b))"
  from nat_bits_bounds [OF a] have ba: "pow2 (la - 1) \<le> of_int a" "of_int a < pow2 la"
    by (simp_all add: la_def)
  from nat_bits_bounds [OF b] have bb: "pow2 (lb - 1) \<le> of_int b" "of_int b < pow2 lb"
    by (simp_all add: lb_def)
  have bpos: "(0 :: rat) < of_int b" using b by simp
  have "X < pow2 la / pow2 (lb - 1)"
    unfolding X using ba(2) bb(1) bpos pow2_pos [of "lb - 1"] pow2_pos [of la] a
    by (intro frac_less) simp_all
  then have up: "X < pow2 (la - lb + 1)"
    using pow2_diff [of la "lb - 1"] by (simp add: algebra_simps)
  have "pow2 (la - 1) / pow2 lb \<le> X"
    unfolding X using ba(1) bb(2) bpos pow2_pos [of "la - 1"] a
    by (intro frac_le) simp_all
  then have down: "pow2 (la - lb - 1) \<le> X"
    using pow2_diff [of "la - 1" lb] by (simp add: algebra_simps)
  have val: "ilog2 x = (if pow2 (la - lb) \<le> X then la - lb else la - lb - 1)"
    by (simp add: ilog2_def Let_def X_def [symmetric] q la_def lb_def)
  show ?thesis
  proof (cases "pow2 (la - lb) \<le> X")
    case True
    with hi have "pow2 (la - lb) < pow2 (e + 1)" by (simp add: X_def)
    then have "la - lb < e + 1" by (rule pow2_less_cancel)
    moreover from lo up have "pow2 e < pow2 (la - lb + 1)" by (simp add: X_def)
    then have "e < la - lb + 1" by (rule pow2_less_cancel)
    ultimately show ?thesis using True val by simp
  next
    case False
    with lo have "pow2 e < pow2 (la - lb)" by (simp add: X_def)
    then have "e < la - lb" by (rule pow2_less_cancel)
    moreover from down hi have "pow2 (la - lb - 1) < pow2 (e + 1)" by (simp add: X_def)
    then have "la - lb - 1 < e + 1" by (rule pow2_less_cancel)
    ultimately show ?thesis using False val by simp
  qed
qed

text \<open>
  A rounding is checked from its binary exponent \<open>e\<close> and its integer \<open>n\<close>: in the normal
  range, and below the overflow threshold.
\<close>

lemma round_double_eval:
  assumes "pow2 e \<le> \<bar>x\<bar>" "\<bar>x\<bar> < pow2 (e + 1)" "- 1022 \<le> e"
    and "round_half_even (x / pow2 (e - 52)) = n"
    and "\<bar>of_int n * pow2 (e - 52)\<bar> < pow2 1024"
  shows "round_double x = Fin (of_int n * pow2 (e - 52))"
proof -
  have "0 < \<bar>x\<bar>" using assms(1) pow2_pos [of e] by linarith
  then have "x \<noteq> 0" by simp
  moreover have "ilog2 x = e" using assms(1,2) by (rule ilog2_unique)
  moreover have "max (e - 52) (- 1074) = e - 52" using assms(3) by simp
  ultimately show ?thesis using assms(4,5)
    by (simp add: round_double_def Let_def)
qed

text \<open>The roundings met by the specs \<open>(0.1, 0.3, 0.1)\<close> and \<open>(1e16, 1e17, 1.0)\<close>.\<close>

lemma double_0_1: "round_double (1 / 10) = Fin (3602879701896397 / 36028797018963968)"
proof -
  have "round_double (1 / 10) = Fin (of_int 7205759403792794 * pow2 (-4 - 52))"
  proof (rule round_double_eval)
    show "pow2 (-4) \<le> \<bar>1 / 10\<bar>" by (simp add: pow2_def)
    show "\<bar>1 / 10\<bar> < pow2 (-4 + 1)" by (simp add: pow2_def)
    show "- 1022 \<le> (-4 :: int)" by simp
    show "round_half_even ((1 / 10) / pow2 (-4 - 52)) = 7205759403792794"
      by (rule round_half_even_near) (simp add: pow2_def)
    show "\<bar>of_int 7205759403792794 * pow2 (-4 - 52)\<bar> < pow2 1024" by (simp add: pow2_def)
  qed
  then show ?thesis by (simp add: pow2_def)
qed

lemma double_0_2: "round_double (2 / 10) = Fin (3602879701896397 / 18014398509481984)"
proof -
  have "round_double (2 / 10) = Fin (of_int 7205759403792794 * pow2 (-3 - 52))"
  proof (rule round_double_eval)
    show "pow2 (-3) \<le> \<bar>2 / 10\<bar>" by (simp add: pow2_def)
    show "\<bar>2 / 10\<bar> < pow2 (-3 + 1)" by (simp add: pow2_def)
    show "- 1022 \<le> (-3 :: int)" by simp
    show "round_half_even ((2 / 10) / pow2 (-3 - 52)) = 7205759403792794"
      by (rule round_half_even_near) (simp add: pow2_def)
    show "\<bar>of_int 7205759403792794 * pow2 (-3 - 52)\<bar> < pow2 1024" by (simp add: pow2_def)
  qed
  then show ?thesis by (simp add: pow2_def)
qed

lemma double_0_3: "round_double (3 / 10) = Fin (5404319552844595 / 18014398509481984)"
proof -
  have "round_double (3 / 10) = Fin (of_int 5404319552844595 * pow2 (-2 - 52))"
  proof (rule round_double_eval)
    show "pow2 (-2) \<le> \<bar>3 / 10\<bar>" by (simp add: pow2_def)
    show "\<bar>3 / 10\<bar> < pow2 (-2 + 1)" by (simp add: pow2_def)
    show "- 1022 \<le> (-2 :: int)" by simp
    show "round_half_even ((3 / 10) / pow2 (-2 - 52)) = 5404319552844595"
      by (rule round_half_even_near) (simp add: pow2_def)
    show "\<bar>of_int 5404319552844595 * pow2 (-2 - 52)\<bar> < pow2 1024" by (simp add: pow2_def)
  qed
  then show ?thesis by (simp add: pow2_def)
qed

lemma double_1e_12: "round_double (1 / 10 ^ 12) = Fin (4951760157141521 / 4951760157141521099596496896)"
proof -
  have "round_double (1 / 10 ^ 12) = Fin (of_int 4951760157141521 * pow2 (-40 - 52))"
  proof (rule round_double_eval)
    show "pow2 (-40) \<le> \<bar>1 / 10 ^ 12\<bar>" by (simp add: pow2_def)
    show "\<bar>1 / 10 ^ 12\<bar> < pow2 (-40 + 1)" by (simp add: pow2_def)
    show "- 1022 \<le> (-40 :: int)" by simp
    show "round_half_even ((1 / 10 ^ 12) / pow2 (-40 - 52)) = 4951760157141521"
      by (rule round_half_even_near) (simp add: pow2_def)
    show "\<bar>of_int 4951760157141521 * pow2 (-40 - 52)\<bar> < pow2 1024" by (simp add: pow2_def)
  qed
  then show ?thesis by (simp add: pow2_def)
qed

lemma bound_0_3: "round_double (5404319552844595 / 18014398509481984 + 4951760157141521 / 4951760157141521099596496896) = Fin (5404319552862609 / 18014398509481984)"
proof -
  have "round_double (5404319552844595 / 18014398509481984 + 4951760157141521 / 4951760157141521099596496896) = Fin (of_int 5404319552862609 * pow2 (-2 - 52))"
  proof (rule round_double_eval)
    show "pow2 (-2) \<le> \<bar>5404319552844595 / 18014398509481984 + 4951760157141521 / 4951760157141521099596496896\<bar>" by (simp add: pow2_def)
    show "\<bar>5404319552844595 / 18014398509481984 + 4951760157141521 / 4951760157141521099596496896\<bar> < pow2 (-2 + 1)" by (simp add: pow2_def)
    show "- 1022 \<le> (-2 :: int)" by simp
    show "round_half_even ((5404319552844595 / 18014398509481984 + 4951760157141521 / 4951760157141521099596496896) / pow2 (-2 - 52)) = 5404319552862609"
      by (rule round_half_even_near) (simp add: pow2_def)
    show "\<bar>of_int 5404319552862609 * pow2 (-2 - 52)\<bar> < pow2 1024" by (simp add: pow2_def)
  qed
  then show ?thesis by (simp add: pow2_def)
qed

lemma sum_0_1_0_1: "round_double (3602879701896397 / 36028797018963968 + 3602879701896397 / 36028797018963968) = Fin (3602879701896397 / 18014398509481984)"
proof -
  have "round_double (3602879701896397 / 36028797018963968 + 3602879701896397 / 36028797018963968) = Fin (of_int 7205759403792794 * pow2 (-3 - 52))"
  proof (rule round_double_eval)
    show "pow2 (-3) \<le> \<bar>3602879701896397 / 36028797018963968 + 3602879701896397 / 36028797018963968\<bar>" by (simp add: pow2_def)
    show "\<bar>3602879701896397 / 36028797018963968 + 3602879701896397 / 36028797018963968\<bar> < pow2 (-3 + 1)" by (simp add: pow2_def)
    show "- 1022 \<le> (-3 :: int)" by simp
    show "round_half_even ((3602879701896397 / 36028797018963968 + 3602879701896397 / 36028797018963968) / pow2 (-3 - 52)) = 7205759403792794"
      by (rule round_half_even_near) (simp add: pow2_def)
    show "\<bar>of_int 7205759403792794 * pow2 (-3 - 52)\<bar> < pow2 1024" by (simp add: pow2_def)
  qed
  then show ?thesis by (simp add: pow2_def)
qed

lemma sum_0_2_0_1: "round_double (3602879701896397 / 18014398509481984 + 3602879701896397 / 36028797018963968) = Fin (1351079888211149 / 4503599627370496)"
proof -
  have "round_double (3602879701896397 / 18014398509481984 + 3602879701896397 / 36028797018963968) = Fin (of_int 5404319552844596 * pow2 (-2 - 52))"
  proof (rule round_double_eval)
    show "pow2 (-2) \<le> \<bar>3602879701896397 / 18014398509481984 + 3602879701896397 / 36028797018963968\<bar>" by (simp add: pow2_def)
    show "\<bar>3602879701896397 / 18014398509481984 + 3602879701896397 / 36028797018963968\<bar> < pow2 (-2 + 1)" by (simp add: pow2_def)
    show "- 1022 \<le> (-2 :: int)" by simp
    show "round_half_even ((3602879701896397 / 18014398509481984 + 3602879701896397 / 36028797018963968) / pow2 (-2 - 52)) = 5404319552844596"
      using round_half_even_tie [of "(3602879701896397 / 18014398509481984 + 3602879701896397 / 36028797018963968) / pow2 (-2 - 52)" 5404319552844595] by (simp add: pow2_def)
    show "\<bar>of_int 5404319552844596 * pow2 (-2 - 52)\<bar> < pow2 1024" by (simp add: pow2_def)
  qed
  then show ?thesis by (simp add: pow2_def)
qed

lemma sum_0_3_0_1: "round_double (1351079888211149 / 4503599627370496 + 3602879701896397 / 36028797018963968) = Fin (3602879701896397 / 9007199254740992)"
proof -
  have "round_double (1351079888211149 / 4503599627370496 + 3602879701896397 / 36028797018963968) = Fin (of_int 7205759403792794 * pow2 (-2 - 52))"
  proof (rule round_double_eval)
    show "pow2 (-2) \<le> \<bar>1351079888211149 / 4503599627370496 + 3602879701896397 / 36028797018963968\<bar>" by (simp add: pow2_def)
    show "\<bar>1351079888211149 / 4503599627370496 + 3602879701896397 / 36028797018963968\<bar> < pow2 (-2 + 1)" by (simp add: pow2_def)
    show "- 1022 \<le> (-2 :: int)" by simp
    show "round_half_even ((1351079888211149 / 4503599627370496 + 3602879701896397 / 36028797018963968) / pow2 (-2 - 52)) = 7205759403792794"
      using round_half_even_tie [of "(1351079888211149 / 4503599627370496 + 3602879701896397 / 36028797018963968) / pow2 (-2 - 52)" 7205759403792794] by (simp add: pow2_def)
    show "\<bar>of_int 7205759403792794 * pow2 (-2 - 52)\<bar> < pow2 1024" by (simp add: pow2_def)
  qed
  then show ?thesis by (simp add: pow2_def)
qed

lemma round12_0_1: "float_round12 (Fin (3602879701896397 / 36028797018963968)) = Fin (3602879701896397 / 36028797018963968)"
proof -
  have "round_half_even (3602879701896397 / 36028797018963968 * 10 ^ 12) = 100000000000"
    by (rule round_half_even_near) simp
  then have "float_round12 (Fin (3602879701896397 / 36028797018963968)) = round_double (100000000000 / 10 ^ 12)"
    by simp
  also have "\<dots> = round_double (1 / 10)" by simp
  also have "\<dots> = Fin (3602879701896397 / 36028797018963968)" by (rule double_0_1)
  finally show ?thesis .
qed

lemma round12_0_2: "float_round12 (Fin (3602879701896397 / 18014398509481984)) = Fin (3602879701896397 / 18014398509481984)"
proof -
  have "round_half_even (3602879701896397 / 18014398509481984 * 10 ^ 12) = 200000000000"
    by (rule round_half_even_near) simp
  then have "float_round12 (Fin (3602879701896397 / 18014398509481984)) = round_double (200000000000 / 10 ^ 12)"
    by simp
  also have "\<dots> = round_double (2 / 10)" by simp
  also have "\<dots> = Fin (3602879701896397 / 18014398509481984)" by (rule double_0_2)
  finally show ?thesis .
qed

lemma round12_0_3: "float_round12 (Fin (1351079888211149 / 4503599627370496)) = Fin (5404319552844595 / 18014398509481984)"
proof -
  have "round_half_even (1351079888211149 / 4503599627370496 * 10 ^ 12) = 300000000000"
    by (rule round_half_even_near) simp
  then have "float_round12 (Fin (1351079888211149 / 4503599627370496)) = round_double (300000000000 / 10 ^ 12)"
    by simp
  also have "\<dots> = round_double (3 / 10)" by simp
  also have "\<dots> = Fin (5404319552844595 / 18014398509481984)" by (rule double_0_3)
  finally show ?thesis .
qed

lemma double_1e16: "round_double (10 ^ 16) = Fin (10000000000000000)"
proof -
  have "round_double (10 ^ 16) = Fin (of_int 5000000000000000 * pow2 (53 - 52))"
  proof (rule round_double_eval)
    show "pow2 53 \<le> \<bar>10 ^ 16\<bar>" by (simp add: pow2_def)
    show "\<bar>10 ^ 16\<bar> < pow2 (53 + 1)" by (simp add: pow2_def)
    show "- 1022 \<le> (53 :: int)" by simp
    show "round_half_even ((10 ^ 16) / pow2 (53 - 52)) = 5000000000000000"
      by (rule round_half_even_near) (simp add: pow2_def)
    show "\<bar>of_int 5000000000000000 * pow2 (53 - 52)\<bar> < pow2 1024" by (simp add: pow2_def)
  qed
  then show ?thesis by (simp add: pow2_def)
qed

lemma double_1e17: "round_double (10 ^ 17) = Fin (100000000000000000)"
proof -
  have "round_double (10 ^ 17) = Fin (of_int 6250000000000000 * pow2 (56 - 52))"
  proof (rule round_double_eval)
    show "pow2 56 \<le> \<bar>10 ^ 17\<bar>" by (simp add: pow2_def)
    show "\<bar>10 ^ 17\<bar> < pow2 (56 + 1)" by (simp add: pow2_def)
    show "- 1022 \<le> (56 :: int)" by simp
    show "round_half_even ((10 ^ 17) / pow2 (56 - 52)) = 6250000000000000"
      by (rule round_half_even_near) (simp add: pow2_def)
    show "\<bar>of_int 6250000000000000 * pow2 (56 - 52)\<bar> < pow2 1024" by (simp add: pow2_def)
  qed
  then show ?thesis by (simp add: pow2_def)
qed

lemma double_1: "round_double (1) = Fin (1)"
proof -
  have "round_double (1) = Fin (of_int 4503599627370496 * pow2 (0 - 52))"
  proof (rule round_double_eval)
    show "pow2 0 \<le> \<bar>1\<bar>" by (simp add: pow2_def)
    show "\<bar>1\<bar> < pow2 (0 + 1)" by (simp add: pow2_def)
    show "- 1022 \<le> (0 :: int)" by simp
    show "round_half_even ((1) / pow2 (0 - 52)) = 4503599627370496"
      by (rule round_half_even_near) (simp add: pow2_def)
    show "\<bar>of_int 4503599627370496 * pow2 (0 - 52)\<bar> < pow2 1024" by (simp add: pow2_def)
  qed
  then show ?thesis by (simp add: pow2_def)
qed

lemma bound_1e17: "round_double (100000000000000000 + 4951760157141521 / 4951760157141521099596496896) = Fin (100000000000000000)"
proof -
  have "round_double (100000000000000000 + 4951760157141521 / 4951760157141521099596496896) = Fin (of_int 6250000000000000 * pow2 (56 - 52))"
  proof (rule round_double_eval)
    show "pow2 56 \<le> \<bar>100000000000000000 + 4951760157141521 / 4951760157141521099596496896\<bar>" by (simp add: pow2_def)
    show "\<bar>100000000000000000 + 4951760157141521 / 4951760157141521099596496896\<bar> < pow2 (56 + 1)" by (simp add: pow2_def)
    show "- 1022 \<le> (56 :: int)" by simp
    show "round_half_even ((100000000000000000 + 4951760157141521 / 4951760157141521099596496896) / pow2 (56 - 52)) = 6250000000000000"
      by (rule round_half_even_near) (simp add: pow2_def)
    show "\<bar>of_int 6250000000000000 * pow2 (56 - 52)\<bar> < pow2 1024" by (simp add: pow2_def)
  qed
  then show ?thesis by (simp add: pow2_def)
qed

lemma sum_1e16_1: "round_double (10000000000000000 + 1) = Fin (10000000000000000)"
proof -
  have "round_double (10000000000000000 + 1) = Fin (of_int 5000000000000000 * pow2 (53 - 52))"
  proof (rule round_double_eval)
    show "pow2 53 \<le> \<bar>10000000000000000 + 1\<bar>" by (simp add: pow2_def)
    show "\<bar>10000000000000000 + 1\<bar> < pow2 (53 + 1)" by (simp add: pow2_def)
    show "- 1022 \<le> (53 :: int)" by simp
    show "round_half_even ((10000000000000000 + 1) / pow2 (53 - 52)) = 5000000000000000"
      using round_half_even_tie [of "(10000000000000000 + 1) / pow2 (53 - 52)" 5000000000000000] by (simp add: pow2_def)
    show "\<bar>of_int 5000000000000000 * pow2 (53 - 52)\<bar> < pow2 1024" by (simp add: pow2_def)
  qed
  then show ?thesis by (simp add: pow2_def)
qed

end
